theory Spec2Isabelle
  imports Main "HOL-Library.Word" "HOL-Library.Sublist"
begin

unbundle bit_operations_syntax

section \<open>The DNS filtering proxy of dns.c\<close>

text \<open>
  The development follows \<^verbatim>\<open>src/dns.c\<close>. The platform is the one the file is written
  for (it includes \<^verbatim>\<open>linux/ip.h\<close>): Linux on a little-endian machine with gcc, where
  \<^verbatim>\<open>char\<close> is a signed octet, \<^verbatim>\<open>unsigned short\<close> has 16 bits and \<^verbatim>\<open>int\<close> does not
  overflow on any value computed here. An access outside an array is undefined behaviour
  in C; the model makes it a value of type \<open>fault\<close>, so that a function that reads or
  writes out of range returns \<open>Inl\<close> instead of a result.
\<close>

subsection \<open>Data\<close>

type_synonym byte = "8 word"

text \<open>\<^verbatim>\<open>#define BUFFER_SIZE 1000\<close>, the size of the receive buffer \<^verbatim>\<open>resp->buffer\<close>.\<close>

definition BUFFER_SIZE :: nat where
  "BUFFER_SIZE = 1000"

text \<open>The size of \<^verbatim>\<open>char name[512]\<close> and \<^verbatim>\<open>char tmpName[512]\<close> in \<^verbatim>\<open>main\<close>.\<close>

definition NAME_SIZE :: nat where
  "NAME_SIZE = 512"

text \<open>
  Modelled from the spec: the type \<^verbatim>\<open>HEADER\<close> is declared by the platform's
  \<^verbatim>\<open>arpa/nameser_compat.h\<close>, not by this repository; it is the 12-octet DNS message
  header (transaction ID, flags, four counts). On the little-endian layout the bit fields
  are, in order of increasing bit position, \<^verbatim>\<open>id:16\<close>; \<^verbatim>\<open>rd:1 tc:1 aa:1 opcode:4 qr:1\<close>
  (third octet); \<^verbatim>\<open>rcode:4 cd:1 ad:1 unused:1 ra:1\<close> (fourth octet); then
  \<^verbatim>\<open>qdcount\<close>, \<^verbatim>\<open>ancount\<close>, \<^verbatim>\<open>nscount\<close>, \<^verbatim>\<open>arcount\<close>, 16 bits each. A one-bit field
  is a \<open>bool\<close>. The field \<^verbatim>\<open>id\<close> is named \<open>id_hdr\<close>.
\<close>

record HEADER =
  id_hdr :: "16 word"
  rd :: bool
  tc :: bool
  aa :: bool
  opcode :: "4 word"
  qr :: bool
  rcode :: "4 word"
  cd :: bool
  ad :: bool
  unused :: bool
  ra :: bool
  qdcount :: "16 word"
  ancount :: "16 word"
  nscount :: "16 word"
  arcount :: "16 word"

text \<open>\<^verbatim>\<open>struct sockaddr_in\<close>: the port and the address, both in network byte order.\<close>

record sockaddr_in =
  sin_port :: "16 word"
  sin_addr :: "32 word"

text \<open>The two descriptors \<^verbatim>\<open>clientSocketDescritor\<close> and \<^verbatim>\<open>serverSocketDescritor\<close>.\<close>

datatype socket = clientSocketDescritor | serverSocketDescritor

text \<open>What an iteration of the loop does to the outside: a call of \<^verbatim>\<open>sendto\<close> with the
  octets \<^verbatim>\<open>resp->buffer[0 .. resp->length - 1]\<close>, or a line on \<^verbatim>\<open>stderr\<close> (its fixed
  text, without the newline and the text of \<^verbatim>\<open>strerror\<close>).\<close>

datatype effect =
  SendTo socket "byte list" sockaddr_in
| Stderr string

datatype fault = ReadPastBuffer | WritePastName

subsection \<open>Octets, shorts and the header\<close>

text \<open>A 16-bit object read from two consecutive octets of memory (little-endian).\<close>

definition load16 :: "byte \<Rightarrow> byte \<Rightarrow> 16 word" where
  "load16 b0 b1 = ucast b0 OR push_bit 8 (ucast b1)"

definition store16 :: "16 word \<Rightarrow> byte list" where
  "store16 w = [ucast w, ucast (drop_bit 8 w)]"

text \<open>\<^verbatim>\<open>ntohs\<close> swaps the two octets of a short.\<close>

definition ntohs :: "16 word \<Rightarrow> 16 word" where
  "ntohs w = push_bit 8 w OR drop_bit 8 w"

text \<open>\<^verbatim>\<open>memcpy(&dnsHeader, resp->buffer, 12)\<close>.\<close>

definition load_HEADER :: "byte list \<Rightarrow> HEADER" where
  "load_HEADER b =
     \<lparr> id_hdr = load16 (b ! 0) (b ! 1),
       rd = bit (b ! 2) 0, tc = bit (b ! 2) 1, aa = bit (b ! 2) 2,
       opcode = ucast (drop_bit 3 (b ! 2)),
       qr = bit (b ! 2) 7,
       rcode = ucast (b ! 3),
       cd = bit (b ! 3) 4, ad = bit (b ! 3) 5, unused = bit (b ! 3) 6, ra = bit (b ! 3) 7,
       qdcount = load16 (b ! 4) (b ! 5),
       ancount = load16 (b ! 6) (b ! 7),
       nscount = load16 (b ! 8) (b ! 9),
       arcount = load16 (b ! 10) (b ! 11) \<rparr>"

text \<open>The 12 octets of a header object, as \<^verbatim>\<open>memcpy(resp->buffer, &dnsHeader, 12)\<close>
  writes them.\<close>

definition flags1 :: "HEADER \<Rightarrow> byte" where
  "flags1 h = of_bool (rd h) OR push_bit 1 (of_bool (tc h)) OR push_bit 2 (of_bool (aa h))
     OR push_bit 3 (ucast (opcode h)) OR push_bit 7 (of_bool (qr h))"

definition flags2 :: "HEADER \<Rightarrow> byte" where
  "flags2 h = ucast (rcode h) OR push_bit 4 (of_bool (cd h)) OR push_bit 5 (of_bool (ad h))
     OR push_bit 6 (of_bool (unused h)) OR push_bit 7 (of_bool (ra h))"

definition store_HEADER :: "HEADER \<Rightarrow> byte list" where
  "store_HEADER h =
     store16 (id_hdr h) @ [flags1 h, flags2 h] @ store16 (qdcount h) @ store16 (ancount h)
       @ store16 (nscount h) @ store16 (arcount h)"

subsection \<open>getDnsRequestData\<close>

text \<open>
  \<^verbatim>\<open>url[counterDst++] = c\<close>: the name is the list of octets written so far, so
  \<^verbatim>\<open>counterDst\<close> is its length; \<open>cap\<close> is the size of the array \<^verbatim>\<open>url\<close> points to.
\<close>

definition put_url :: "nat \<Rightarrow> byte list \<Rightarrow> byte \<Rightarrow> fault + byte list" where
  "put_url cap url c = (if length url < cap then Inr (url @ [c]) else Inl WritePastName)"

text \<open>
  The inner loop \<^verbatim>\<open>while (counter <= offset + sum) url[counterDst++] = ptr[counter++];\<close>
  with \<open>lim\<close> for \<^verbatim>\<open>offset + sum\<close> and \<^verbatim>\<open>ptr = buffer + sizeof(HEADER)\<close>.
\<close>

function copy_label :: "byte list \<Rightarrow> nat \<Rightarrow> int \<Rightarrow> nat \<Rightarrow> byte list \<Rightarrow> fault + (nat \<times> byte list)" where
  "copy_label buffer cap lim counter url =
     (if int counter \<le> lim then
        (if length buffer \<le> 12 + counter then Inl ReadPastBuffer
         else case put_url cap url (buffer ! (12 + counter)) of
                Inl e \<Rightarrow> Inl e
              | Inr url' \<Rightarrow> copy_label buffer cap lim (counter + 1) url')
      else Inr (counter, url))"
  by pat_completeness auto
termination
  by (relation "measure (\<lambda>(buffer, cap, lim, counter, url). length buffer - counter)") auto

text \<open>
  The outer loop \<^verbatim>\<open>while (sum) { ... }\<close>. \<^verbatim>\<open>sum\<close> is an \<^verbatim>\<open>int\<close> read from a
  \<^verbatim>\<open>char\<close>, so an octet of 128 or more is a negative length
  (\<open>sm\<close> stands for \<^verbatim>\<open>sum\<close>).
\<close>

function name_loop :: "byte list \<Rightarrow> nat \<Rightarrow> int \<Rightarrow> nat \<Rightarrow> nat \<Rightarrow> byte list \<Rightarrow> fault + (nat \<times> byte list)" where
  "name_loop buffer cap sm offset counter url =
     (if sm \<noteq> 0 then
        (case (if offset \<noteq> 0 then put_url cap url 46 else Inr url) of
           Inl e \<Rightarrow> Inl e
         | Inr url1 \<Rightarrow>
            (case copy_label buffer cap (int offset + sm) counter url1 of
               Inl e \<Rightarrow> Inl e
             | Inr (counter', url2) \<Rightarrow>
                 (if length buffer \<le> 12 + counter' then Inl ReadPastBuffer
                  else name_loop buffer cap (sint (buffer ! (12 + counter'))) counter'
                         (counter' + 1) url2)))
      else Inr (counter, url))"
  by pat_completeness auto

lemma copy_label_counter:
  "copy_label buffer cap lim counter url = Inr (counter', url') \<Longrightarrow> counter \<le> counter'"
proof (induction buffer cap lim counter url rule: copy_label.induct)
  case (1 buffer cap lim counter url)
  show ?case
  proof (cases "int counter \<le> lim")
    case True
    with "1.prems" obtain url1 where
      u: "put_url cap url (buffer ! (12 + counter)) = Inr url1"
      and r: "\<not> length buffer \<le> 12 + counter"
      and c: "copy_label buffer cap lim (counter + 1) url1 = Inr (counter', url')"
      by (auto split: if_splits sum.splits)
    from "1.IH" [OF True r u c] show ?thesis by simp
  next
    case False
    with "1.prems" show ?thesis by simp
  qed
qed

termination name_loop
proof (relation "measure (\<lambda>(buffer, cap, sm, offset, counter, url). length buffer - counter)")
  show "wf (measure (\<lambda>(buffer, cap, sm, offset, counter, url). length buffer - counter))"
    by simp
next
  fix buffer :: "byte list" and cap :: nat and sm :: int and offset counter :: nat
    and url x2 :: "byte list" and x2a :: "nat \<times> byte list" and x1 :: nat and y :: "byte list"
  assume "copy_label buffer cap (int offset + sm) counter x2 = Inr x2a"
    and "(x1, y) = x2a" and "\<not> length buffer \<le> 12 + x1"
  then have "counter \<le> x1" "12 + x1 < length buffer"
    using copy_label_counter [of buffer cap "int offset + sm" counter x2 x1 y] by auto
  then show "((buffer, cap, sint (buffer ! (12 + x1)), x1, x1 + 1, y),
              (buffer, cap, sm, offset, counter, url))
             \<in> measure (\<lambda>(buffer, cap, sm, offset, counter, url). length buffer - counter)"
    by simp
qed

text \<open>Both loops are unfolded by hand, one iteration at a time.\<close>

declare copy_label.simps [simp del]

declare name_loop.simps [simp del]

text \<open>
  The type and the class are read through an \<^verbatim>\<open>unsigned short *\<close> at \<^verbatim>\<open>ptr + counter\<close>;
  each only when the caller passed a destination for it (\<open>want_type\<close>, \<open>want_class\<close>).
  The pointer need not be aligned; the two octets are read as the x86 machine reads them.
\<close>

definition load_short :: "byte list \<Rightarrow> nat \<Rightarrow> fault + int" where
  "load_short buffer i =
     (if length buffer \<le> i + 1 then Inl ReadPastBuffer
      else Inr (uint (ntohs (load16 (buffer ! i) (buffer ! (i + 1))))))"

definition load_if :: "bool \<Rightarrow> byte list \<Rightarrow> nat \<Rightarrow> fault + int option" where
  "load_if want buffer i =
     (if want then (case load_short buffer i of Inl e \<Rightarrow> Inl e | Inr v \<Rightarrow> Inr (Some v))
      else Inr None)"

definition getDnsRequestData ::
  "byte list \<Rightarrow> nat \<Rightarrow> bool \<Rightarrow> bool \<Rightarrow> fault + (byte list \<times> int option \<times> int option)" where
  "getDnsRequestData buffer cap want_type want_class =
     (if length buffer \<le> 12 then Inl ReadPastBuffer
      else case name_loop buffer cap (sint (buffer ! 12)) 0 1 [] of
             Inl e \<Rightarrow> Inl e
           | Inr (counter, url) \<Rightarrow>
               (case put_url cap url 0 of
                  Inl e \<Rightarrow> Inl e
                | Inr url0 \<Rightarrow>
                   (case load_if want_type buffer (12 + counter) of
                      Inl e \<Rightarrow> Inl e
                    | Inr ty \<Rightarrow>
                       (case load_if want_class buffer (12 + counter + 2) of
                          Inl e \<Rightarrow> Inl e
                        | Inr cl \<Rightarrow> Inr (url0, ty, cl)))))"

subsection \<open>isBlacklisted\<close>

text \<open>A \<^verbatim>\<open>char *\<close> argument is read as a C string: the octets before the first NUL.\<close>

definition c_str :: "byte list \<Rightarrow> byte list" where
  "c_str m = takeWhile (\<lambda>c. c \<noteq> 0) m"

text \<open>\<^verbatim>\<open>strstr(haystack, needle) != NULL\<close>: the needle starts at some position of the
  haystack.\<close>

fun occurs_in :: "byte list \<Rightarrow> byte list \<Rightarrow> bool" where
  "occurs_in needle [] = (needle = [])"
| "occurs_in needle (c # cs) = (prefix needle (c # cs) \<or> occurs_in needle cs)"

definition strstr :: "byte list \<Rightarrow> byte list \<Rightarrow> bool" where
  "strstr haystack needle = occurs_in (c_str needle) (c_str haystack)"

text \<open>The global \<^verbatim>\<open>blacklist->r[0 .. size - 1]\<close> is the first argument.\<close>

fun isBlacklisted :: "byte list list \<Rightarrow> byte list \<Rightarrow> bool" where
  "isBlacklisted [] name = False"
| "isBlacklisted (r # rs) name = (if strstr name r then True else isBlacklisted rs name)"

text \<open>The words of the specification: some stored entry occurs in the name as a
  contiguous substring.\<close>

definition spec_IsBlacklisted :: "byte list list \<Rightarrow> byte list \<Rightarrow> bool" where
  "spec_IsBlacklisted entries name = (\<exists>e \<in> set entries. \<exists>before after. name = before @ e @ after)"

subsection \<open>The state of the loop in main\<close>

text \<open>
  The receive buffer \<^verbatim>\<open>resp->buffer\<close> and the correlation arrays \<^verbatim>\<open>ports[32]\<close>,
  \<^verbatim>\<open>ids[32]\<close>, \<^verbatim>\<open>addresses[32]\<close> with their cursor \<^verbatim>\<open>portsCounter\<close>. The cursor is
  an \<^verbatim>\<open>unsigned short\<close> that never exceeds 31 (\<open>portsCounter_bound\<close> below), so it is
  a \<open>nat\<close>.
\<close>

record proxy =
  resp_buffer :: "byte list"
  ports :: "16 word list"
  ids :: "16 word list"
  addresses :: "32 word list"
  portsCounter :: nat

text \<open>Lines 392 to 403: \<^verbatim>\<open>malloc\<close> leaves the buffer's content open (\<open>b\<close>); the arrays
  are zeroed.\<close>

definition init_proxy :: "byte list \<Rightarrow> proxy" where
  "init_proxy b =
     \<lparr> resp_buffer = b, ports = replicate 32 0, ids = replicate 32 0,
       addresses = replicate 32 0, portsCounter = 0 \<rparr>"

text \<open>Lines 491 to 497, the specification's \<^verbatim>\<open>Record\<close>.\<close>

definition Record :: "proxy \<Rightarrow> 16 word \<Rightarrow> 16 word \<Rightarrow> 32 word \<Rightarrow> proxy" where
  "Record st k p a =
     st \<lparr> ports := (ports st)[portsCounter st := p],
          ids := (ids st)[portsCounter st := k],
          addresses := (addresses st)[portsCounter st := a],
          portsCounter := (if portsCounter st + 1 = 31 then 0 else portsCounter st + 1) \<rparr>"

text \<open>Lines 524 to 533, the specification's \<^verbatim>\<open>Resolve\<close>: the first index below 32 whose
  stored ID is the key.\<close>

definition Resolve :: "proxy \<Rightarrow> 16 word \<Rightarrow> (16 word \<times> 32 word) option" where
  "Resolve st k =
     (case List.find (\<lambda>i. ids st ! i = k) [0 ..< 32] of
        None \<Rightarrow> None
      | Some i \<Rightarrow> Some (ports st ! i, addresses st ! i))"

definition proxy_ok :: "proxy \<Rightarrow> bool" where
  "proxy_ok st \<longleftrightarrow>
     length (resp_buffer st) = BUFFER_SIZE \<and> length (ports st) = 32 \<and> length (ids st) = 32
       \<and> length (addresses st) = 32 \<and> portsCounter st < 31"

subsection \<open>One iteration of the loop\<close>

text \<open>What \<^verbatim>\<open>recvfrom\<close> returned: \<open>-1\<close>, or a datagram and its source address.\<close>

datatype received = Failed | Datagram "byte list" sockaddr_in

text \<open>\<^verbatim>\<open>recvfrom(fd, resp->buffer, BUFFER_SIZE, ...)\<close> stores at most \<^verbatim>\<open>BUFFER_SIZE\<close> octets
  at the start of the buffer and returns their number.\<close>

definition recvfrom :: "byte list \<Rightarrow> byte list \<Rightarrow> byte list \<times> nat" where
  "recvfrom buffer d =
     (take BUFFER_SIZE d @ drop (length (take BUFFER_SIZE d)) buffer, length (take BUFFER_SIZE d))"

definition badPacket :: "HEADER \<Rightarrow> bool" where
  "badPacket h \<longleftrightarrow> qr h \<or> unused h \<or> cd h \<or> qdcount h \<le> 0 \<or> 0 < ancount h"

text \<open>The block that lines 444 to 454, 462 to 472 and 479 to 489 repeat with the codes 1,
  4 and 5: the header is changed, copied over the first 12 octets of the buffer, and the
  buffer is sent back; a failed \<^verbatim>\<open>sendto\<close> (\<open>\<not> send_ok\<close>) is reported.\<close>

definition answer_header :: "HEADER \<Rightarrow> 4 word \<Rightarrow> HEADER" where
  "answer_header h code =
     h \<lparr> qr := True, aa := True, ra := True, rcode := code, ancount := 0, nscount := 0 \<rparr>"

definition send_report :: "bool \<Rightarrow> effect list" where
  "send_report send_ok = (if send_ok then [] else [Stderr ''Error sending packet.''])"

definition reply_error ::
  "proxy \<Rightarrow> byte list \<Rightarrow> nat \<Rightarrow> HEADER \<Rightarrow> 4 word \<Rightarrow> sockaddr_in \<Rightarrow> bool \<Rightarrow> proxy \<times> effect list" where
  "reply_error st buffer len h code clientAddress send_ok =
     (let buffer' = store_HEADER (answer_header h code) @ drop 12 buffer
      in (st \<lparr> resp_buffer := buffer' \<rparr>,
          SendTo clientSocketDescritor (take len buffer') clientAddress # send_report send_ok))"

text \<open>
  Lines 419 to 503, the client question. The result holds the new state, the effects and
  whether control reaches the server part of the same iteration (every branch but the
  forwarding one ends in \<^verbatim>\<open>continue\<close>). \<^verbatim>\<open>type\<close> and \<^verbatim>\<open>class\<close> start at 0 and keep
  that value when \<^verbatim>\<open>getDnsRequestData\<close> is not called. The printing on \<^verbatim>\<open>stdout\<close>
  is left out.
\<close>

definition client_question ::
  "byte list list \<Rightarrow> sockaddr_in \<Rightarrow> proxy \<Rightarrow> received \<Rightarrow> bool
     \<Rightarrow> fault + (proxy \<times> effect list \<times> bool)" where
  "client_question blacklist serverAddress st r send_ok =
     (case r of
        Failed \<Rightarrow> Inr (st, [Stderr ''Not able to receive packet.''], False)
      | Datagram d clientAddress \<Rightarrow>
          (let (buffer, len) = recvfrom (resp_buffer st) d;
               st1 = st \<lparr> resp_buffer := buffer \<rparr>;
               dnsHeader = load_HEADER buffer
           in case (if \<not> badPacket dnsHeader then getDnsRequestData buffer NAME_SIZE True True
                    else Inr ([], None, None)) of
                Inl e \<Rightarrow> Inl e
              | Inr (name, ty, cl) \<Rightarrow>
                  (let type = (case ty of None \<Rightarrow> 0 | Some v \<Rightarrow> v);
                       class = (case cl of None \<Rightarrow> 0 | Some v \<Rightarrow> v)
                   in if type \<le> 0 \<or> class \<le> 0 \<or> badPacket dnsHeader then
                        (case reply_error st1 buffer len dnsHeader 1 clientAddress send_ok of
                           (st2, out) \<Rightarrow>
                             Inr (st2, Stderr ''Wrong query received, sending RCODE=1 (format error).'' # out, False))
                      else if type \<noteq> 1 \<or> class \<noteq> 1 then
                        (case reply_error st1 buffer len dnsHeader 4 clientAddress send_ok of
                           (st2, out) \<Rightarrow>
                             Inr (st2, Stderr ''Function not implemented, sending RCODE=4 (not implemented error).'' # out, False))
                      else if isBlacklisted blacklist name then
                        (case reply_error st1 buffer len dnsHeader 5 clientAddress send_ok of
                           (st2, out) \<Rightarrow> Inr (st2, out, False))
                      else
                        Inr (Record st1 (ntohs (id_hdr dnsHeader)) (sin_port clientAddress)
                               (sin_addr clientAddress),
                             SendTo serverSocketDescritor (take len buffer) serverAddress
                               # send_report send_ok,
                             True))))"

text \<open>Lines 505 to 535, the server answer. The name is decoded for printing only, with
  no destination for type and class; the result of \<^verbatim>\<open>sendto\<close> is not looked at.\<close>

definition server_answer :: "sockaddr_in \<Rightarrow> proxy \<Rightarrow> received \<Rightarrow> fault + (proxy \<times> effect list)" where
  "server_answer serverAddress st r =
     (case r of
        Failed \<Rightarrow> Inr (st, [Stderr ''Not able to receive packet.''])
      | Datagram d tmpAddress \<Rightarrow>
          (let (buffer, len) = recvfrom (resp_buffer st) d;
               st1 = st \<lparr> resp_buffer := buffer \<rparr>;
               out = (if sin_port tmpAddress \<noteq> sin_port serverAddress
                         \<or> sin_addr tmpAddress \<noteq> sin_addr serverAddress
                      then [Stderr ''Answer from unexpected source.''] else []);
               dnsHeader = load_HEADER buffer
           in case getDnsRequestData buffer NAME_SIZE False False of
                Inl e \<Rightarrow> Inl e
              | Inr tmpName \<Rightarrow>
                  (case Resolve st1 (ntohs (id_hdr dnsHeader)) of
                     None \<Rightarrow> Inr (st1, out)
                   | Some (port, address) \<Rightarrow>
                       Inr (st1, out @ [SendTo clientSocketDescritor (take len buffer)
                                          \<lparr> sin_port = port, sin_addr = address \<rparr>]))))"

text \<open>
  What one call of \<^verbatim>\<open>poll\<close> brings: whether it succeeded, for each descriptor with
  \<^verbatim>\<open>POLLIN\<close> set what \<^verbatim>\<open>recvfrom\<close> will return, and whether the client part's
  \<^verbatim>\<open>sendto\<close> succeeds.
\<close>

record event =
  poll_ok :: bool
  client_in :: "received option"
  server_in :: "received option"
  send_ok :: bool

text \<open>An iteration ends the process (\<^verbatim>\<open>clear\<close> calls \<^verbatim>\<open>exit\<close>), leaves defined
  behaviour, or reaches the next \<^verbatim>\<open>poll\<close> in a new state.\<close>

datatype outcome = Exited "effect list" | Undefined fault | Polling proxy "effect list"

definition iteration :: "byte list list \<Rightarrow> sockaddr_in \<Rightarrow> proxy \<Rightarrow> event \<Rightarrow> outcome" where
  "iteration blacklist serverAddress st ev =
     (if \<not> poll_ok ev then Exited [Stderr ''Unable to poll descriptors.'']
      else case (case client_in ev of
                   None \<Rightarrow> Inr (st, [], True)
                 | Some r \<Rightarrow> client_question blacklist serverAddress st r (send_ok ev)) of
             Inl e \<Rightarrow> Undefined e
           | Inr (st1, out1, False) \<Rightarrow> Polling st1 out1
           | Inr (st1, out1, True) \<Rightarrow>
               (case server_in ev of
                  None \<Rightarrow> Polling st1 out1
                | Some r \<Rightarrow>
                    (case server_answer serverAddress st1 r of
                       Inl e \<Rightarrow> Undefined e
                     | Inr (st2, out2) \<Rightarrow> Polling st2 (out1 @ out2))))"

text \<open>The datagrams an iteration hands to \<^verbatim>\<open>sendto\<close>, in order.\<close>

fun sends :: "effect list \<Rightarrow> (socket \<times> byte list \<times> sockaddr_in) list" where
  "sends [] = []"
| "sends (SendTo s d a # es) = (s, d, a) # sends es"
| "sends (Stderr m # es) = sends es"

subsection \<open>The name decodes of an iteration\<close>

text \<open>
  For stating where an iteration leaves defined behaviour: the fault, if any, of
  \<^verbatim>\<open>getDnsRequestData\<close> on a buffer (\<open>want\<close> for both destinations); whether the
  client question in a buffer reaches the forwarding branch of lines 491 to 502; the
  fault of the decode of line 436, which runs on the buffer the client datagram was
  received into when the header check passed; and the fault of the decode of line 522,
  which runs when the server part is reached (no client datagram, or a forwarded one), on
  the buffer the answer was received into.
\<close>

definition decode_fault :: "byte list \<Rightarrow> bool \<Rightarrow> fault option" where
  "decode_fault buffer want =
     (case getDnsRequestData buffer NAME_SIZE want want of Inl f \<Rightarrow> Some f | Inr r \<Rightarrow> None)"

definition forwarded :: "byte list list \<Rightarrow> byte list \<Rightarrow> bool" where
  "forwarded blacklist buffer \<longleftrightarrow>
     \<not> badPacket (load_HEADER buffer)
     \<and> (case getDnsRequestData buffer NAME_SIZE True True of
          Inl f \<Rightarrow> False
        | Inr (name, ty, cl) \<Rightarrow> ty = Some 1 \<and> cl = Some 1 \<and> \<not> isBlacklisted blacklist name)"

definition question_fault :: "proxy \<Rightarrow> event \<Rightarrow> fault option" where
  "question_fault st ev =
     (case client_in ev of
        Some (Datagram d clientAddress) \<Rightarrow>
          (if badPacket (load_HEADER (fst (recvfrom (resp_buffer st) d))) then None
           else decode_fault (fst (recvfrom (resp_buffer st) d)) True)
      | _ \<Rightarrow> None)"

definition answer_fault :: "byte list list \<Rightarrow> proxy \<Rightarrow> event \<Rightarrow> fault option" where
  "answer_fault blacklist st ev =
     (case server_in ev of
        Some (Datagram a tmpAddress) \<Rightarrow>
          (case client_in ev of
             None \<Rightarrow> decode_fault (fst (recvfrom (resp_buffer st) a)) False
           | Some Failed \<Rightarrow> None
           | Some (Datagram d clientAddress) \<Rightarrow>
               (if forwarded blacklist (fst (recvfrom (resp_buffer st) d))
                then decode_fault (fst (recvfrom (fst (recvfrom (resp_buffer st) d)) a)) False
                else None))
      | _ \<Rightarrow> None)"

subsection \<open>Sequences of Record calls\<close>

text \<open>A correlation entry (transaction ID, client port, client address), the content of
  one index of the three arrays, and a sequence of \<^verbatim>\<open>Record\<close> calls.\<close>

type_synonym entry = "16 word \<times> 16 word \<times> 32 word"

definition Records :: "proxy \<Rightarrow> entry list \<Rightarrow> proxy" where
  "Records st es = foldl (\<lambda>s (k, p, a). Record s k p a) st es"

definition slot :: "proxy \<Rightarrow> nat \<Rightarrow> entry" where
  "slot st j = (ids st ! j, ports st ! j, addresses st ! j)"


subsection \<open>Example datagrams\<close>

text \<open>Octets of a string, a label with its length octet, the 12 header octets with
  \<^verbatim>\<open>QDCOUNT = 1\<close>, and the end of a question (root label, type, class \<^verbatim>\<open>IN\<close>).\<close>

definition octets :: "string \<Rightarrow> byte list" where
  "octets s = map of_char s"

definition label :: "string \<Rightarrow> byte list" where
  "label s = of_nat (length s) # octets s"

definition header_octets :: "byte \<Rightarrow> byte \<Rightarrow> byte \<Rightarrow> byte \<Rightarrow> byte list" where
  "header_octets id0 id1 f1 f2 = [id0, id1, f1, f2, 0, 1, 0, 0, 0, 0, 0, 0]"

definition question_end :: "byte \<Rightarrow> byte list" where
  "question_end ty = [0, 0, ty, 0, 1]"

definition ads_example_com :: "byte list" where
  "ads_example_com = label ''ads'' @ label ''example'' @ label ''com''"

text \<open>The resolver 8.8.8.8 port 53 and a client 127.0.0.1 port 54329, in network byte
  order as the little-endian machine holds them.\<close>

definition resolver :: sockaddr_in where
  "resolver = \<lparr> sin_port = 0x3500, sin_addr = 0x08080808 \<rparr>"

definition client1 :: sockaddr_in where
  "client1 = \<lparr> sin_port = 0x39D4, sin_addr = 0x0100007F \<rparr>"

text \<open>The state before the first iteration, with a buffer of zeros and with one of ones.\<close>

definition fresh :: proxy where
  "fresh = init_proxy (replicate BUFFER_SIZE 0)"

definition fresh_ones :: proxy where
  "fresh_ones = init_proxy (replicate BUFFER_SIZE 1)"

text \<open>A query for the A record of ads.example.com, the same for its MX record (type 15),
  and 12 octets with the response flag set.\<close>

definition query_A :: "byte list" where
  "query_A = header_octets 0xAB 0xCD 1 0 @ ads_example_com @ question_end 1"

definition query_MX :: "byte list" where
  "query_MX = header_octets 0xAB 0xCD 1 0 @ ads_example_com @ question_end 15"

definition response_flag_set :: "byte list" where
  "response_flag_set = header_octets 0xAB 0xCD 0x81 0"

text \<open>An A query for example.com; a query and an answer whose 900 octets after the
  header are all 1, that is 450 labels of one octet; a query whose name starts with the
  compression pointer \<^verbatim>\<open>C0 03\<close>, and one with the pointer \<^verbatim>\<open>C0 0C\<close> after the label
  \<open>ads\<close>.\<close>

definition query_example :: "byte list" where
  "query_example = header_octets 0xAB 0xCD 1 0 @ label ''example'' @ label ''com'' @ question_end 1"

definition overflow_query :: "byte list" where
  "overflow_query = header_octets 0xAB 0xCD 1 0 @ replicate 900 1"

definition overflow_answer :: "byte list" where
  "overflow_answer = header_octets 0xAB 0xCD 0x81 0x80 @ replicate 900 1"

definition pointer_first :: "byte list" where
  "pointer_first = header_octets 0xAB 0xCD 1 0 @ [0xC0, 3] @ octets ''com'' @ question_end 1"

definition pointer_second :: "byte list" where
  "pointer_second = header_octets 0xAB 0xCD 1 0 @ label ''ads'' @ [0xC0, 0x0C] @ question_end 1"


text \<open>Thirty-one entries with the IDs 100 to 130, entries with the IDs 1 to 32 and with
  the IDs 0 to 31, and two entries with the IDs 9 and 7.\<close>

definition ids_100_130 :: "entry list" where
  "ids_100_130 = map (\<lambda>i. (100 + of_nat i, 0x39D4, 0x0100007F)) [0 ..< 31]"

definition ids_1_32 :: "entry list" where
  "ids_1_32 = map (\<lambda>i. (1 + of_nat i, 0x39D4, 0x0100007F)) [0 ..< 32]"

definition ids_0_31 :: "entry list" where
  "ids_0_31 = map (\<lambda>i. (of_nat i, 0x39D4, 0x0100007F)) [0 ..< 32]"

definition ids_9_7 :: "entry list" where
  "ids_9_7 = [(9, 0x3333, 3), (7, 0x4444, 4)]"


text \<open>An answer for example.com with the transaction ID 0.\<close>

definition answer_id0 :: "byte list" where
  "answer_id0 = header_octets 0 0 0x81 0x80 @ label ''example'' @ label ''com'' @ question_end 1"


text \<open>Four events: \<^verbatim>\<open>poll\<close> fails; \<^verbatim>\<open>recvfrom\<close> fails on the client socket; it
  fails on the server socket; a bad header arrives and the reply cannot be sent.\<close>

definition poll_failed :: event where
  "poll_failed = \<lparr> poll_ok = False, client_in = None, server_in = None, send_ok = True \<rparr>"

definition client_recv_failed :: event where
  "client_recv_failed = \<lparr> poll_ok = True, client_in = Some Failed, server_in = None, send_ok = True \<rparr>"

definition server_recv_failed :: event where
  "server_recv_failed = \<lparr> poll_ok = True, client_in = None, server_in = Some Failed, send_ok = True \<rparr>"

definition malformed_and_send_failed :: event where
  "malformed_and_send_failed =
     \<lparr> poll_ok = True, client_in = Some (Datagram response_flag_set client1),
       server_in = None, send_ok = False \<rparr>"


text \<open>An answer with the transaction ID 0 whose question holds 450 one-octet labels, and
  the event in which the query for example.com and the answer with ID 0 for it are both
  ready.\<close>

definition overflow_answer_id0 :: "byte list" where
  "overflow_answer_id0 = header_octets 0 0 0x81 0x80 @ replicate 900 1"

definition query_and_answer :: event where
  "query_and_answer =
     \<lparr> poll_ok = True, client_in = Some (Datagram query_example client1),
       server_in = Some (Datagram answer_id0 resolver), send_ok = True \<rparr>"

section \<open>The name loop, one iteration at a time\<close>

lemma copy_label_none:
  assumes "lim < int counter"
  shows "copy_label buffer cap lim counter url = Inr (counter, url)"
  using assms by (subst copy_label.simps) simp

lemma copy_label_one:
  assumes "12 + counter < length buffer"
  shows "copy_label buffer cap (int counter) counter url =
     (case put_url cap url (buffer ! (12 + counter)) of
        Inl e \<Rightarrow> Inl e
      | Inr url' \<Rightarrow> Inr (counter + 1, url'))"
proof -
  have stop: "copy_label buffer cap (int counter) (counter + 1) u = Inr (counter + 1, u)" for u
    by (rule copy_label_none) simp
  have "copy_label buffer cap (int counter) counter url =
      (case put_url cap url (buffer ! (12 + counter)) of
         Inl e \<Rightarrow> Inl e
       | Inr url' \<Rightarrow> copy_label buffer cap (int counter) (counter + 1) url')"
    using assms by (subst copy_label.simps) simp
  then show ?thesis by (simp only: stop)
qed

lemma name_loop_step:
  assumes "sm \<noteq> 0"
    and "(if offset \<noteq> 0 then put_url cap url 46 else Inr url) = Inr url1"
    and "copy_label buffer cap (int offset + sm) counter url1 = Inr (counter', url2)"
    and "12 + counter' < length buffer"
  shows "name_loop buffer cap sm offset counter url =
     name_loop buffer cap (sint (buffer ! (12 + counter'))) counter' (counter' + 1) url2"
proof -
  from assms(4) have r: "\<not> length buffer \<le> 12 + counter'" by simp
  show ?thesis
    by (subst name_loop.simps)
      (simp only: assms(1-3) r sum.case prod.case if_True if_False not_False_eq_True)
qed

lemma name_loop_put_fault:
  assumes "sm \<noteq> 0"
    and "(if offset \<noteq> 0 then put_url cap url 46 else Inr url) = Inl e"
  shows "name_loop buffer cap sm offset counter url = Inl e"
  by (subst name_loop.simps)
    (simp only: assms sum.case if_True not_False_eq_True)

lemma name_loop_copy_fault:
  assumes "sm \<noteq> 0"
    and "(if offset \<noteq> 0 then put_url cap url 46 else Inr url) = Inr url1"
    and "copy_label buffer cap (int offset + sm) counter url1 = Inl e"
  shows "name_loop buffer cap sm offset counter url = Inl e"
  by (subst name_loop.simps)
    (simp only: assms sum.case if_True not_False_eq_True)

lemma name_loop_zero: "name_loop buffer cap 0 offset counter url = Inr (counter, url)"
  by (subst name_loop.simps) simp

lemma name_loop_ones:
  assumes ones: "\<forall>i. 12 \<le> i \<and> i < cap + 16 \<longrightarrow> buffer ! i = 1"
    and len: "cap + 16 \<le> length buffer"
    and off: "offset = length url + 1" and url: "length url \<le> cap"
  shows "name_loop buffer cap 1 offset (offset + 1) url = Inl WritePastName"
  using off url
proof (induction "cap - length url" arbitrary: url offset rule: less_induct)
  case less
  from less.prems have o: "offset \<noteq> 0" by simp
  show ?case
  proof (cases "length url < cap")
    case False
    then have "(if offset \<noteq> 0 then put_url cap url 46 else Inr url) = Inl WritePastName"
      using o by (simp add: put_url_def)
    then show ?thesis by (intro name_loop_put_fault) simp_all
  next
    case True
    let ?u1 = "url @ [46]"
    have p1: "(if offset \<noteq> 0 then put_url cap url 46 else Inr url) = Inr ?u1"
      using True o by (simp add: put_url_def)
    have r1: "12 + (offset + 1) < length buffer" using less.prems len by simp
    have b1: "buffer ! (12 + (offset + 1)) = 1" using ones less.prems by simp
    have c1: "copy_label buffer cap (int offset + 1) (offset + 1) ?u1 =
        (case put_url cap ?u1 1 of Inl e \<Rightarrow> Inl e | Inr url' \<Rightarrow> Inr (offset + 1 + 1, url'))"
      using copy_label_one [OF r1, of cap ?u1] by (simp only: b1 of_nat_add of_nat_1)
    show ?thesis
    proof (cases "length ?u1 < cap")
      case False
      then have "put_url cap ?u1 1 = Inl WritePastName" by (simp add: put_url_def)
      with c1 have "copy_label buffer cap (int offset + 1) (offset + 1) ?u1 = Inl WritePastName"
        by simp
      with p1 show ?thesis by (intro name_loop_copy_fault) simp_all
    next
      case u1: True
      let ?u2 = "?u1 @ [1]"
      have p2: "put_url cap ?u1 1 = Inr ?u2" using u1 by (simp add: put_url_def)
      with c1 have c2: "copy_label buffer cap (int offset + 1) (offset + 1) ?u1
          = Inr (offset + 1 + 1, ?u2)"
        by simp
      have r2: "12 + (offset + 1 + 1) < length buffer" using less.prems len by simp
      have b2: "buffer ! (12 + (offset + 1 + 1)) = 1" using ones less.prems by simp
      have "name_loop buffer cap 1 offset (offset + 1) url
          = name_loop buffer cap (sint (buffer ! (12 + (offset + 1 + 1)))) (offset + 1 + 1)
              (offset + 1 + 1 + 1) ?u2"
        using p1 c2 r2 by (intro name_loop_step) simp_all
      also have "\<dots> = name_loop buffer cap 1 (offset + 1 + 1) (offset + 1 + 1 + 1) ?u2"
        by (simp only: b2) simp
      also have "\<dots> = Inl WritePastName"
        using less.prems u1 by (intro less.hyps) simp_all
      finally show ?thesis .
    qed
  qed
qed

lemma getDnsRequestData_ones:
  assumes ones: "\<forall>i. 12 \<le> i \<and> i < cap + 16 \<longrightarrow> buffer ! i = 1"
    and len: "cap + 16 \<le> length buffer" and cap: "1 < cap"
  shows "getDnsRequestData buffer cap want_type want_class = Inl WritePastName"
proof -
  have b12: "buffer ! 12 = 1" and b13: "buffer ! (12 + 1) = 1" and b14: "buffer ! (12 + 2) = 1"
    using ones by simp_all
  have "copy_label buffer cap (int 1) 1 [] =
      (case put_url cap [] (buffer ! (12 + 1)) of Inl e \<Rightarrow> Inl e | Inr url' \<Rightarrow> Inr (1 + 1, url'))"
    using len by (intro copy_label_one) simp
  then have c: "copy_label buffer cap (int 0 + 1) 1 [] = Inr (2, [1])"
    using cap b13 by (simp add: put_url_def)
  have "name_loop buffer cap 1 0 1 [] = name_loop buffer cap (sint (buffer ! (12 + 2))) 2 (2 + 1) [1]"
    using c len by (intro name_loop_step) simp_all
  also have "\<dots> = name_loop buffer cap 1 2 (2 + 1) [1]"
    by (simp only: b14) simp
  also have "\<dots> = Inl WritePastName"
    using cap by (intro name_loop_ones [OF ones len]) simp_all
  finally have "name_loop buffer cap 1 0 1 [] = Inl WritePastName" .
  with len b12 show ?thesis by (simp add: getDnsRequestData_def)
qed

lemma sint_negative: "bit (c :: byte) 7 \<Longrightarrow> sint c < 0"
  using bit_last_iff [of c] by simp


section \<open>The header and the reply to the client\<close>

lemma high_bit_byte: "\<not> bit (a :: byte) (8 + n)"
  by (auto dest: bit_imp_le_length)

lemma store16_load16: "store16 (load16 a b) = [a, b]"
  unfolding store16_def load16_def
  apply simp
  apply (rule conjI)
   apply (rule bit_word_eqI; simp add: bit_simps)
  apply (rule bit_word_eqI; simp add: bit_simps high_bit_byte)
  done

lemma load16_store16: "load16 (ucast w) (ucast (drop_bit 8 w)) = w"
  unfolding load16_def
  apply (rule bit_word_eqI)
  apply (auto simp add: bit_simps)
  done

lemma flags1_fields:
  "bit (flags1 h) 0 = rd h" "bit (flags1 h) 1 = tc h" "bit (flags1 h) 2 = aa h"
  "ucast (drop_bit 3 (flags1 h)) = opcode h" "bit (flags1 h) 7 = qr h"
  unfolding flags1_def
      apply (auto simp add: bit_simps dest: bit_imp_le_length)[3]
   apply (rule bit_word_eqI)
   apply (auto simp add: bit_simps dest: bit_imp_le_length)[1]
  apply (auto simp add: bit_simps dest: bit_imp_le_length)[1]
  done

lemma flags2_fields:
  "ucast (flags2 h) = rcode h" "bit (flags2 h) 4 = cd h" "bit (flags2 h) 5 = ad h"
  "bit (flags2 h) 6 = unused h" "bit (flags2 h) 7 = ra h"
  unfolding flags2_def
      apply (rule bit_word_eqI)
      apply (auto simp add: bit_simps dest: bit_imp_le_length)
  done

lemma load_store_HEADER: "load_HEADER (store_HEADER h @ rest) = h"
proof -
  have "bit (flags1 h) (Suc 0) = tc h"
    using flags1_fields(2) [of h] by simp
  then show ?thesis
    by (simp add: load_HEADER_def store_HEADER_def store16_def load16_store16
        flags1_fields flags2_fields)
qed

lemma length_store_HEADER: "length (store_HEADER h) = 12"
  by (simp add: store_HEADER_def store16_def)

lemma take2_store_HEADER:
  "take 2 (store_HEADER (answer_header (load_HEADER b) code) @ rest) = [b ! 0, b ! 1]"
  by (simp add: store_HEADER_def answer_header_def load_HEADER_def store16_load16)

lemma recvfrom_length:
  "length buffer = BUFFER_SIZE \<Longrightarrow> length (fst (recvfrom buffer d)) = BUFFER_SIZE"
  by (simp add: recvfrom_def BUFFER_SIZE_def)

lemma recvfrom_take:
  "take (snd (recvfrom buffer d)) (fst (recvfrom buffer d)) = take BUFFER_SIZE d"
  by (simp add: recvfrom_def min_def)

lemma recvfrom_nth:
  "i < length d \<Longrightarrow> i < BUFFER_SIZE \<Longrightarrow> fst (recvfrom buffer d) ! i = d ! i"
  by (simp add: recvfrom_def nth_append)

lemma load_HEADER_cong:
  "\<forall>i<12. b ! i = b' ! i \<Longrightarrow> load_HEADER b = load_HEADER b'"
  by (simp add: load_HEADER_def)

lemma load_HEADER_recvfrom:
  "12 \<le> length d \<Longrightarrow> load_HEADER (fst (recvfrom buffer d)) = load_HEADER d"
  by (rule load_HEADER_cong) (simp add: recvfrom_nth BUFFER_SIZE_def)



lemma snd_recvfrom: "snd (recvfrom buffer d) = length (take BUFFER_SIZE d)"
  by (simp add: recvfrom_def)

lemma sends_send_report [simp]: "sends (send_report ok) = []"
  by (simp add: send_report_def)

lemma sends_append [simp]: "sends (xs @ ys) = sends xs @ sends ys"
  by (induction xs rule: sends.induct) simp_all

lemma reply_error_eq:
  "reply_error st b len h code ca ok =
    (st \<lparr> resp_buffer := store_HEADER (answer_header h code) @ drop 12 b \<rparr>,
     SendTo clientSocketDescritor (take len (store_HEADER (answer_header h code) @ drop 12 b)) ca
       # send_report ok)"
  by (simp add: reply_error_def Let_def)

lemma reply_bytes:
  assumes d: "12 \<le> length d"
  shows "length (take (snd (recvfrom buf d)) (store_HEADER h @ drop 12 (fst (recvfrom buf d))))
           = length (take BUFFER_SIZE d)"
    and "load_HEADER (take (snd (recvfrom buf d)) (store_HEADER h @ drop 12 (fst (recvfrom buf d)))) = h"
    and "drop 12 (take (snd (recvfrom buf d)) (store_HEADER h @ drop 12 (fst (recvfrom buf d))))
           = drop 12 (take BUFFER_SIZE d)"
proof -
  let ?b = "fst (recvfrom buf d)" and ?len = "snd (recvfrom buf d)"
  let ?p = "take ?len (store_HEADER h @ drop 12 ?b)"
  from d have len: "12 \<le> ?len" by (simp add: snd_recvfrom BUFFER_SIZE_def)
  have lb: "?len \<le> length ?b" by (simp add: recvfrom_def)
  from len have p: "?p = store_HEADER h @ take (?len - 12) (drop 12 ?b)"
    by (simp add: length_store_HEADER)
  show "load_HEADER ?p = h" unfolding p by (rule load_store_HEADER)
  have "drop 12 ?p = take (?len - 12) (drop 12 ?b)"
    unfolding p by (simp add: length_store_HEADER)
  also have "\<dots> = drop 12 (take ?len ?b)" by (simp add: drop_take)
  also have "\<dots> = drop 12 (take BUFFER_SIZE d)" by (simp add: recvfrom_take)
  finally show "drop 12 ?p = drop 12 (take BUFFER_SIZE d)" .
  have "length ?p = ?len" using len lb unfolding p by (simp add: length_store_HEADER)
  then show "length ?p = length (take BUFFER_SIZE d)" by (simp add: snd_recvfrom)
qed


lemma nth_header_ones:
  "length hdr = 12 \<Longrightarrow> 12 \<le> i \<Longrightarrow> i < 12 + n \<Longrightarrow> (hdr @ replicate n 1) ! i = 1"
  by (simp add: nth_append)

lemma ones_datagram_overflow:
  assumes hdr: "length hdr = 12" and n: "516 \<le> n"
  shows "getDnsRequestData (fst (recvfrom buffer (hdr @ replicate n 1))) NAME_SIZE
           want_type want_class = Inl WritePastName"
proof (rule getDnsRequestData_ones)
  let ?d = "hdr @ replicate n 1"
  show "\<forall>i. 12 \<le> i \<and> i < NAME_SIZE + 16 \<longrightarrow> fst (recvfrom buffer ?d) ! i = 1"
  proof (intro allI impI)
    fix i assume i: "12 \<le> i \<and> i < NAME_SIZE + 16"
    with hdr n have "i < length ?d" "i < BUFFER_SIZE"
      by (simp_all add: NAME_SIZE_def BUFFER_SIZE_def)
    then have "fst (recvfrom buffer ?d) ! i = ?d ! i" by (rule recvfrom_nth)
    also have "\<dots> = 1" using hdr n i by (intro nth_header_ones) (simp_all add: NAME_SIZE_def)
    finally show "fst (recvfrom buffer ?d) ! i = 1" .
  qed
  show "NAME_SIZE + 16 \<le> length (fst (recvfrom buffer ?d))"
    using hdr n by (simp add: recvfrom_def NAME_SIZE_def BUFFER_SIZE_def)
  show "1 < NAME_SIZE" by (simp add: NAME_SIZE_def)
qed


section \<open>The client question and the server answer\<close>

lemma occurs_in_sublist: "occurs_in needle cs \<longleftrightarrow> sublist needle cs"
  by (induction cs) (simp_all add: sublist_Cons_right)

lemma isBlacklisted_iff:
  "isBlacklisted rs name \<longleftrightarrow> (\<exists>r \<in> set rs. sublist (c_str r) (c_str name))"
  by (induction rs) (simp_all add: strstr_def occurs_in_sublist)

lemma isBlacklisted_spec:
  "isBlacklisted rs name \<longleftrightarrow> spec_IsBlacklisted (map c_str rs) (c_str name)"
  by (auto simp add: isBlacklisted_iff spec_IsBlacklisted_def sublist_def)

lemma isBlacklisted_first_match:
  "strstr name r \<Longrightarrow> isBlacklisted (before @ r # rest) name"
  by (induction before) simp_all

lemma Resolve_resp_buffer [simp]: "Resolve (st \<lparr> resp_buffer := b \<rparr>) k = Resolve st k"
  by (simp add: Resolve_def split: option.splits)

lemma client_question_bad:
  assumes "badPacket (load_HEADER (fst (recvfrom (resp_buffer st) d)))"
  shows "client_question blacklist serverAddress st (Datagram d clientAddress) ok =
     (case reply_error (st \<lparr> resp_buffer := fst (recvfrom (resp_buffer st) d) \<rparr>)
             (fst (recvfrom (resp_buffer st) d)) (snd (recvfrom (resp_buffer st) d))
             (load_HEADER (fst (recvfrom (resp_buffer st) d))) 1 clientAddress ok of
        (st2, out) \<Rightarrow>
          Inr (st2, Stderr ''Wrong query received, sending RCODE=1 (format error).'' # out, False))"
  using assms by (simp add: client_question_def split_def Let_def)

lemma client_question_fault:
  assumes "\<not> badPacket (load_HEADER (fst (recvfrom (resp_buffer st) d)))"
    and "getDnsRequestData (fst (recvfrom (resp_buffer st) d)) NAME_SIZE True True = Inl e"
  shows "client_question blacklist serverAddress st (Datagram d clientAddress) ok = Inl e"
  using assms by (simp add: client_question_def split_def Let_def)

lemma client_question_decoded:
  assumes "\<not> badPacket (load_HEADER (fst (recvfrom (resp_buffer st) d)))"
    and "getDnsRequestData (fst (recvfrom (resp_buffer st) d)) NAME_SIZE True True
           = Inr (name, Some ty, Some cl)"
  shows "client_question blacklist serverAddress st (Datagram d clientAddress) ok =
     (let buffer = fst (recvfrom (resp_buffer st) d); len = snd (recvfrom (resp_buffer st) d);
          st1 = st \<lparr> resp_buffer := buffer \<rparr>; dnsHeader = load_HEADER buffer
      in if ty \<le> 0 \<or> cl \<le> 0 then
           (case reply_error st1 buffer len dnsHeader 1 clientAddress ok of
              (st2, out) \<Rightarrow>
                Inr (st2, Stderr ''Wrong query received, sending RCODE=1 (format error).'' # out, False))
         else if ty \<noteq> 1 \<or> cl \<noteq> 1 then
           (case reply_error st1 buffer len dnsHeader 4 clientAddress ok of
              (st2, out) \<Rightarrow>
                Inr (st2, Stderr ''Function not implemented, sending RCODE=4 (not implemented error).'' # out, False))
         else if isBlacklisted blacklist name then
           (case reply_error st1 buffer len dnsHeader 5 clientAddress ok of
              (st2, out) \<Rightarrow> Inr (st2, out, False))
         else
           Inr (Record st1 (ntohs (id_hdr dnsHeader)) (sin_port clientAddress)
                  (sin_addr clientAddress),
                SendTo serverSocketDescritor (take len buffer) serverAddress # send_report ok,
                True))"
  using assms by (simp add: client_question_def split_def Let_def)

lemma server_answer_decoded:
  assumes "getDnsRequestData (fst (recvfrom (resp_buffer st) d)) NAME_SIZE False False = Inr r"
  shows "server_answer serverAddress st (Datagram d tmpAddress) =
     Inr (st \<lparr> resp_buffer := fst (recvfrom (resp_buffer st) d) \<rparr>,
          (if sin_port tmpAddress \<noteq> sin_port serverAddress
              \<or> sin_addr tmpAddress \<noteq> sin_addr serverAddress
           then [Stderr ''Answer from unexpected source.''] else [])
          @ (case Resolve st (ntohs (id_hdr (load_HEADER (fst (recvfrom (resp_buffer st) d))))) of
               None \<Rightarrow> []
             | Some (port, address) \<Rightarrow>
                 [SendTo clientSocketDescritor (take BUFFER_SIZE d)
                    \<lparr> sin_port = port, sin_addr = address \<rparr>]))"
  using assms
  by (simp add: server_answer_def split_def Let_def recvfrom_take split: option.splits)

lemma server_answer_fault:
  assumes "getDnsRequestData (fst (recvfrom (resp_buffer st) d)) NAME_SIZE False False = Inl e"
  shows "server_answer serverAddress st (Datagram d tmpAddress) = Inl e"
  using assms by (simp add: server_answer_def split_def Let_def)

text \<open>The two forwarding paths, for datagrams whose name decodes inside the buffers.\<close>

lemma forward_query:
  assumes "\<not> badPacket (load_HEADER (fst (recvfrom (resp_buffer st) d)))"
    and "getDnsRequestData (fst (recvfrom (resp_buffer st) d)) NAME_SIZE True True
           = Inr (name, Some 1, Some 1)"
    and "\<not> isBlacklisted blacklist name"
  shows "\<exists>st' out.
      client_question blacklist serverAddress st (Datagram d clientAddress) ok = Inr (st', out, True)
    \<and> sends out = [(serverSocketDescritor, take BUFFER_SIZE d, serverAddress)]"
  using assms
  by (simp add: client_question_decoded [OF assms(1,2)] Let_def recvfrom_take)

lemma return_answer:
  assumes "getDnsRequestData (fst (recvfrom (resp_buffer st) d)) NAME_SIZE False False = Inr r"
    and "Resolve st (ntohs (id_hdr (load_HEADER (fst (recvfrom (resp_buffer st) d))))) = Some (port, address)"
  shows "\<exists>st' out.
      server_answer serverAddress st (Datagram d tmpAddress) = Inr (st', out)
    \<and> sends out = [(clientSocketDescritor, take BUFFER_SIZE d,
                     \<lparr> sin_port = port, sin_addr = address \<rparr>)]"
  using assms(2) by (simp add: server_answer_decoded [OF assms(1)])


text \<open>Where an iteration can end.\<close>

lemma client_question_state:
  "map_sum id (\<lambda>(st', out, c). (st', c)) (client_question blacklist serverAddress st r True)
   = map_sum id (\<lambda>(st', out, c). (st', c)) (client_question blacklist serverAddress st r False)"
  by (simp add: client_question_def split_def Let_def reply_error_eq
      split: received.splits sum.splits)

lemma client_question_send_failed:
  assumes "client_question blacklist serverAddress st r True = Inr (st', out, c)"
  shows "\<exists>out'. client_question blacklist serverAddress st r False = Inr (st', out', c)"
proof (cases "client_question blacklist serverAddress st r False")
  case (Inl f)
  with assms client_question_state [of blacklist serverAddress st r] show ?thesis by simp
next
  case (Inr x)
  obtain st2 out2 c2 where x: "x = (st2, out2, c2)" by (cases x)
  from assms Inr x client_question_state [of blacklist serverAddress st r]
  have "st2 = st'" "c2 = c" by simp_all
  with Inr x show ?thesis by simp
qed

lemma iteration_poll_failed:
  "\<not> poll_ok ev \<Longrightarrow> iteration blacklist serverAddress st ev = Exited [Stderr ''Unable to poll descriptors.'']"
  by (simp add: iteration_def)

lemma resp_buffer_Record [simp]: "resp_buffer (Record st k p a) = resp_buffer st"
  by (simp add: Record_def)

lemma client_question_go:
  assumes nb: "\<not> badPacket (load_HEADER (fst (recvfrom (resp_buffer st) d)))"
    and dec: "getDnsRequestData (fst (recvfrom (resp_buffer st) d)) NAME_SIZE True True = Inr x"
  shows "\<exists>st1 out.
      client_question blacklist serverAddress st (Datagram d clientAddress) sent
        = Inr (st1, out, forwarded blacklist (fst (recvfrom (resp_buffer st) d)))
    \<and> (forwarded blacklist (fst (recvfrom (resp_buffer st) d))
          \<longrightarrow> resp_buffer st1 = fst (recvfrom (resp_buffer st) d))"
proof -
  obtain name ty cl where x: "x = (name, ty, cl)" by (cases x)
  show ?thesis
  proof (cases "ty = Some 1 \<and> cl = Some 1")
    case True
    with nb dec x show ?thesis
      by (simp add: client_question_def split_def Let_def reply_error_eq forwarded_def)
  next
    case False
    then have nf: "\<not> forwarded blacklist (fst (recvfrom (resp_buffer st) d))"
      using dec x by (auto simp add: forwarded_def)
    from False have "(case ty of None \<Rightarrow> 0 | Some v \<Rightarrow> v) \<noteq> (1::int)
        \<or> (case cl of None \<Rightarrow> 0 | Some v \<Rightarrow> v) \<noteq> (1::int)"
      by (auto split: option.splits)
    with nb dec x nf show ?thesis
      by (auto simp add: client_question_def split_def Let_def reply_error_eq)
  qed
qed

lemma client_question_bad_go:
  assumes "badPacket (load_HEADER (fst (recvfrom (resp_buffer st) d)))"
  shows "\<exists>st1 out.
      client_question blacklist serverAddress st (Datagram d clientAddress) sent
        = Inr (st1, out, False)
    \<and> \<not> forwarded blacklist (fst (recvfrom (resp_buffer st) d))"
  using assms by (simp add: client_question_bad reply_error_eq forwarded_def)

lemma server_answer_total:
  assumes "decode_fault (fst (recvfrom (resp_buffer st) a)) False = None"
  shows "\<exists>st' out. server_answer serverAddress st (Datagram a tmpAddress) = Inr (st', out)"
proof -
  from assms obtain r
    where "getDnsRequestData (fst (recvfrom (resp_buffer st) a)) NAME_SIZE False False = Inr r"
    by (auto simp add: decode_fault_def split: sum.splits)
  then show ?thesis by (simp add: server_answer_decoded)
qed

lemma server_answer_faults:
  assumes "decode_fault (fst (recvfrom (resp_buffer st) a)) False = Some f"
  shows "server_answer serverAddress st (Datagram a tmpAddress) = Inl f"
proof -
  from assms
  have "getDnsRequestData (fst (recvfrom (resp_buffer st) a)) NAME_SIZE False False = Inl f"
    by (auto simp add: decode_fault_def split: sum.splits)
  then show ?thesis by (rule server_answer_fault)
qed

lemma iteration_outcome:
  assumes p: "poll_ok ev"
  shows "(case question_fault st ev of
            Some f \<Rightarrow> iteration blacklist serverAddress st ev = Undefined f
          | None \<Rightarrow>
             (case answer_fault blacklist st ev of
                Some f \<Rightarrow> iteration blacklist serverAddress st ev = Undefined f
              | None \<Rightarrow> (\<exists>st' out. iteration blacklist serverAddress st ev = Polling st' out)))"
proof (cases "client_in ev")
  case None
  then have q: "question_fault st ev = None" by (simp add: question_fault_def)
  show ?thesis
  proof (cases "server_in ev")
    case n: None
    with None p q show ?thesis
      by (simp add: iteration_def answer_fault_def)
  next
    case (Some r)
    show ?thesis
    proof (cases r)
      case Failed
      with Some None p q show ?thesis
        by (simp add: iteration_def answer_fault_def server_answer_def)
    next
      case (Datagram a tmpAddress)
      show ?thesis
      proof (cases "decode_fault (fst (recvfrom (resp_buffer st) a)) False")
        case n: None
        from server_answer_total [OF n] obtain st' out
          where "server_answer serverAddress st (Datagram a tmpAddress) = Inr (st', out)" by blast
        with Some None Datagram p q n show ?thesis
          by (simp add: iteration_def answer_fault_def)
      next
        case (Some f)
        from server_answer_faults [OF Some]
        have "server_answer serverAddress st (Datagram a tmpAddress) = Inl f" .
        with \<open>server_in ev = Some r\<close> None Datagram p q Some show ?thesis
          by (simp add: iteration_def answer_fault_def)
      qed
    qed
  qed
next
  case c: (Some r)
  show ?thesis
  proof (cases r)
    case Failed
    with c p show ?thesis
      by (simp add: iteration_def question_fault_def answer_fault_def client_question_def
          split: option.splits received.splits)
  next
    case (Datagram d clientAddress)
    let ?b = "fst (recvfrom (resp_buffer st) d)"
    show ?thesis
    proof (cases "badPacket (load_HEADER ?b)")
      case True
      from client_question_bad_go [OF True] obtain st1 out1
        where cq: "client_question blacklist serverAddress st (Datagram d clientAddress) (send_ok ev)
            = Inr (st1, out1, False)"
          and nf: "\<not> forwarded blacklist ?b"
        by blast
      from c Datagram True have q: "question_fault st ev = None"
        by (simp add: question_fault_def)
      from c Datagram nf have a: "answer_fault blacklist st ev = None"
        by (simp add: answer_fault_def split: option.splits received.splits)
      from p c Datagram cq have "iteration blacklist serverAddress st ev = Polling st1 out1"
        by (simp add: iteration_def)
      with q a show ?thesis by simp
    next
      case False
      show ?thesis
      proof (cases "getDnsRequestData ?b NAME_SIZE True True")
        case (Inl f)
        from c Datagram False Inl have q: "question_fault st ev = Some f"
          by (simp add: question_fault_def decode_fault_def)
        from client_question_fault [OF False Inl]
        have "client_question blacklist serverAddress st (Datagram d clientAddress) (send_ok ev)
            = Inl f" .
        with p c Datagram have "iteration blacklist serverAddress st ev = Undefined f"
          by (simp add: iteration_def)
        with q show ?thesis by simp
      next
        case (Inr x)
        from c Datagram False Inr have q: "question_fault st ev = None"
          by (simp add: question_fault_def decode_fault_def)
        from client_question_go [OF False Inr] obtain st1 out1
          where cq: "client_question blacklist serverAddress st (Datagram d clientAddress) (send_ok ev)
              = Inr (st1, out1, forwarded blacklist ?b)"
            and rb: "forwarded blacklist ?b \<longrightarrow> resp_buffer st1 = ?b"
          by blast
        show ?thesis
        proof (cases "forwarded blacklist ?b")
          case nf: False
          with c Datagram have a: "answer_fault blacklist st ev = None"
            by (simp add: answer_fault_def split: option.splits received.splits)
          from p c Datagram cq nf have "iteration blacklist serverAddress st ev = Polling st1 out1"
            by (simp add: iteration_def)
          with q a show ?thesis by simp
        next
          case fw: True
          with rb have rb': "resp_buffer st1 = ?b" by simp
          show ?thesis
          proof (cases "server_in ev")
            case None
            with p c Datagram cq fw have "iteration blacklist serverAddress st ev = Polling st1 out1"
              by (simp add: iteration_def)
            moreover from None have "answer_fault blacklist st ev = None"
              by (simp add: answer_fault_def)
            ultimately show ?thesis using q by simp
          next
            case s: (Some r2)
            show ?thesis
            proof (cases r2)
              case Failed
              with p c Datagram cq fw s
              have "iteration blacklist serverAddress st ev
                  = Polling st1 (out1 @ [Stderr ''Not able to receive packet.''])"
                by (simp add: iteration_def server_answer_def)
              moreover from s Failed have "answer_fault blacklist st ev = None"
                by (simp add: answer_fault_def)
              ultimately show ?thesis using q by simp
            next
              case d2: (Datagram a tmpAddress)
              from s d2 c Datagram fw
              have af: "answer_fault blacklist st ev = decode_fault (fst (recvfrom ?b a)) False"
                by (simp add: answer_fault_def)
              show ?thesis
              proof (cases "decode_fault (fst (recvfrom ?b a)) False")
                case None
                then have "decode_fault (fst (recvfrom (resp_buffer st1) a)) False = None"
                  by (simp add: rb')
                from server_answer_total [OF this] obtain st' out
                  where "server_answer serverAddress st1 (Datagram a tmpAddress) = Inr (st', out)"
                  by blast
                with p c Datagram cq fw s d2
                have "iteration blacklist serverAddress st ev = Polling st' (out1 @ out)"
                  by (simp add: iteration_def)
                with q af None show ?thesis by simp
              next
                case (Some f)
                then have "decode_fault (fst (recvfrom (resp_buffer st1) a)) False = Some f"
                  by (simp add: rb')
                from server_answer_faults [OF this]
                have "server_answer serverAddress st1 (Datagram a tmpAddress) = Inl f" .
                with p c Datagram cq fw s d2
                have "iteration blacklist serverAddress st ev = Undefined f"
                  by (simp add: iteration_def)
                with q af Some show ?thesis by simp
              qed
            qed
          qed
        qed
      qed
    qed
  qed
qed

lemma iteration_send_failed:
  assumes "iteration blacklist serverAddress st (ev \<lparr> send_ok := True \<rparr>) = Polling st' out"
  shows "\<exists>out'. iteration blacklist serverAddress st (ev \<lparr> send_ok := False \<rparr>) = Polling st' out'"
proof (cases "poll_ok ev")
  case False
  with assms show ?thesis by (simp add: iteration_def)
next
  case True
  show ?thesis
  proof (cases "client_in ev")
    case None
    with assms True show ?thesis by (simp add: iteration_def)
  next
    case (Some r)
    show ?thesis
    proof (cases "client_question blacklist serverAddress st r True")
      case (Inl f)
      with assms True Some show ?thesis by (simp add: iteration_def)
    next
      case (Inr x)
      obtain st1 out1 go where x: "x = (st1, out1, go)" by (cases x)
      from client_question_send_failed [OF Inr [unfolded x]] obtain out1'
        where f: "client_question blacklist serverAddress st r False = Inr (st1, out1', go)" ..
      from assms True Some Inr x f show ?thesis
        by (auto simp add: iteration_def split: option.splits sum.splits bool.splits)
    qed
  qed
qed


section \<open>The correlation table\<close>

lemma Records_Nil [simp]: "Records st [] = st"
  by (simp add: Records_def)

lemma Records_Cons [simp]: "Records st ((k, p, a) # es) = Records (Record st k p a) es"
  by (simp add: Records_def)

lemma Records_snoc: "Records st (es @ [(k, p, a)]) = Record (Records st es) k p a"
  by (simp add: Records_def)

lemma slot_init: "j < 32 \<Longrightarrow> slot (init_proxy b) j = (0, 0, 0)"
  by (simp add: slot_def init_proxy_def)

lemma proxy_ok_init: "length b = BUFFER_SIZE \<Longrightarrow> proxy_ok (init_proxy b)"
  by (simp add: proxy_ok_def init_proxy_def)

lemma proxy_ok_Record: "proxy_ok st \<Longrightarrow> proxy_ok (Record st k p a)"
  by (simp add: proxy_ok_def Record_def)

lemma portsCounter_Record:
  "portsCounter st < 31 \<Longrightarrow> portsCounter (Record st k p a) = (portsCounter st + 1) mod 31"
  by (simp add: Record_def)

lemma slot_Record:
  "proxy_ok st \<Longrightarrow> j < 32 \<Longrightarrow>
   slot (Record st k p a) j = (if j = portsCounter st then (k, p, a) else slot st j)"
  by (simp add: slot_def Record_def proxy_ok_def)

lemma resp_buffer_Records [simp]: "resp_buffer (Records st es) = resp_buffer st"
  by (induction es arbitrary: st) auto

lemma Resolve_first:
  assumes "c < 32" and "ids st ! c = k" and "\<forall>i<c. ids st ! i \<noteq> k"
  shows "Resolve st k = Some (ports st ! c, addresses st ! c)"
proof -
  have "List.find (\<lambda>i. ids st ! i = k) [0 ..< 32] = Some c"
    unfolding find_Some_iff using assms by (intro exI [of _ c]) auto
  then show ?thesis by (simp add: Resolve_def)
qed

lemma Resolve_None:
  assumes "\<forall>i<32. ids st ! i \<noteq> k"
  shows "Resolve st k = None"
proof -
  have "List.find (\<lambda>i. ids st ! i = k) [0 ..< 32] = None"
    unfolding find_None_iff using assms by auto
  then show ?thesis by (simp add: Resolve_def)
qed

lemma Resolve_Some_slot:
  assumes "Resolve st k = Some (p, a)"
  shows "\<exists>j<32. slot st j = (k, p, a)"
proof -
  from assms obtain i where f: "List.find (\<lambda>i. ids st ! i = k) [0 ..< 32] = Some i"
    and pa: "p = ports st ! i" "a = addresses st ! i"
    by (auto simp: Resolve_def split: option.splits)
  from f have "i < 32" "ids st ! i = k"
    by (auto simp: find_Some_iff)
  with pa show ?thesis by (auto simp: slot_def)
qed

lemma Resolve_exists:
  assumes "j < 32" and "ids st ! j = k"
  shows "\<exists>p a. Resolve st k = Some (p, a)"
proof (cases "List.find (\<lambda>i. ids st ! i = k) [0 ..< 32]")
  case None
  with assms show ?thesis by (auto simp: find_None_iff)
next
  case (Some i)
  then show ?thesis by (simp add: Resolve_def)
qed

text \<open>After the calls \<open>es\<close> from the initial state the cursor is \<open>length es mod 31\<close>, and
  an index holds either its initial zeros or one of the last 31 entries, the \<open>i\<close>th call
  having written index \<open>i mod 31\<close>.\<close>

lemma Records_invariant:
  assumes "length b = BUFFER_SIZE"
  shows "proxy_ok (Records (init_proxy b) es)
     \<and> portsCounter (Records (init_proxy b) es) = length es mod 31
     \<and> (\<forall>j<32. slot (Records (init_proxy b) es) j = (0, 0, 0)
           \<or> (\<exists>i<length es. length es \<le> i + 31 \<and> i mod 31 = j
                 \<and> slot (Records (init_proxy b) es) j = es ! i))"
proof (induction es rule: rev_induct)
  case Nil
  show ?case using assms
    by (simp add: proxy_ok_init) (simp add: init_proxy_def slot_def)
next
  case (snoc e es)
  obtain k p a where e: "e = (k, p, a)" by (cases e)
  let ?s = "Records (init_proxy b) es"
  from snoc have ok: "proxy_ok ?s" and pc: "portsCounter ?s = length es mod 31"
    and sl: "\<And>j. j < 32 \<Longrightarrow> slot ?s j = (0, 0, 0)
           \<or> (\<exists>i<length es. length es \<le> i + 31 \<and> i mod 31 = j \<and> slot ?s j = es ! i)"
    by auto
  have s': "Records (init_proxy b) (es @ [e]) = Record ?s k p a"
    by (simp add: e Records_snoc)
  have "proxy_ok (Record ?s k p a)" using ok by (rule proxy_ok_Record)
  moreover have "portsCounter (Record ?s k p a) = length (es @ [e]) mod 31"
    using ok pc by (simp add: portsCounter_Record proxy_ok_def mod_Suc)
  moreover have "slot (Record ?s k p a) j = (0, 0, 0)
           \<or> (\<exists>i<length (es @ [e]). length (es @ [e]) \<le> i + 31 \<and> i mod 31 = j
                 \<and> slot (Record ?s k p a) j = (es @ [e]) ! i)" if j: "j < 32" for j
  proof (cases "j = portsCounter ?s")
    case True
    then have "slot (Record ?s k p a) j = (es @ [e]) ! length es"
      using ok j by (simp add: slot_Record e)
    moreover have "length es mod 31 = j" using True pc by simp
    ultimately show ?thesis by (intro disjI2 exI [of _ "length es"]) simp
  next
    case False
    then have same: "slot (Record ?s k p a) j = slot ?s j"
      using ok j by (simp add: slot_Record)
    from sl [OF j] show ?thesis
    proof
      assume "slot ?s j = (0, 0, 0)"
      with same show ?thesis by simp
    next
      assume "\<exists>i<length es. length es \<le> i + 31 \<and> i mod 31 = j \<and> slot ?s j = es ! i"
      then obtain i where i: "i < length es" "length es \<le> i + 31" "i mod 31 = j"
        "slot ?s j = es ! i" by blast
      have "length es \<noteq> i + 31"
      proof
        assume "length es = i + 31"
        then have "length es mod 31 = i mod 31" by simp
        with i pc False show False by simp
      qed
      with i have "length (es @ [e]) \<le> i + 31" by simp
      moreover have "(es @ [e]) ! i = es ! i" using i by (simp add: nth_append)
      ultimately show ?thesis using i same
        by (intro disjI2 exI [of _ i]) simp
    qed
  qed
  ultimately show ?case unfolding s' by blast
qed

lemma mod31_ne:
  assumes "c < 31" and "j < 30"
  shows "(c + 1 + j) mod 31 \<noteq> (c::nat)"
proof (cases "c + 1 + j < 31")
  case True
  then show ?thesis by simp
next
  case False
  then have "(c + 1 + j) mod 31 = (c + 1 + j - 31) mod 31"
    by (simp add: le_mod_geq)
  also have "\<dots> = c + 1 + j - 31" using assms by simp
  finally show ?thesis using assms False by simp
qed

lemma split32: "length es = 32 \<Longrightarrow> es = take 31 es @ [es ! 31]"
proof -
  assume "length es = 32"
  then have "take (Suc 31) es = take 31 es @ [es ! 31]"
    by (intro take_Suc_conv_app_nth) simp
  with \<open>length es = 32\<close> show ?thesis by simp
qed

lemma Records_keep:
  assumes "proxy_ok s" and "c < 31" and "slot s c = (X, P, A)" and "\<forall>i<c. ids s ! i \<noteq> X"
    and "portsCounter s = (c + 1 + j) mod 31" and "j + length es \<le> 30"
    and "\<forall>e \<in> set es. fst e \<noteq> X"
  shows "slot (Records s es) c = (X, P, A) \<and> (\<forall>i<c. ids (Records s es) ! i \<noteq> X)"
  using assms
proof (induction es arbitrary: s j)
  case Nil
  then show ?case by simp
next
  case (Cons e es)
  obtain k p a where e: "e = (k, p, a)" by (cases e)
  let ?s = "Record s k p a"
  from Cons.prems have kX: "k \<noteq> X" by (simp add: e)
  from Cons.prems have j: "j < 30" by simp
  have ne: "portsCounter s \<noteq> c"
    using mod31_ne [OF \<open>c < 31\<close> j] Cons.prems(5) by simp
  have 1: "proxy_ok ?s" using Cons.prems(1) by (rule proxy_ok_Record)
  have 2: "slot ?s c = (X, P, A)"
    using Cons.prems(1,2,3) ne by (simp add: slot_Record)
  have 3: "\<forall>i<c. ids ?s ! i \<noteq> X"
  proof (intro allI impI)
    fix i assume i: "i < c"
    then have "i < 32" using \<open>c < 31\<close> by simp
    from slot_Record [OF Cons.prems(1) this, of k p a]
    have "ids ?s ! i = (if i = portsCounter s then k else ids s ! i)"
      by (simp add: slot_def split: if_splits)
    with kX Cons.prems(4) i show "ids ?s ! i \<noteq> X" by simp
  qed
  have 4: "portsCounter ?s = (c + 1 + Suc j) mod 31"
    using Cons.prems(1,5) by (simp add: portsCounter_Record proxy_ok_def mod_Suc_eq)
  have 5: "Suc j + length es \<le> 30" using Cons.prems(6) by simp
  have 6: "\<forall>e \<in> set es. fst e \<noteq> X" using Cons.prems(7) by simp
  from Cons.IH [OF 1 \<open>c < 31\<close> 2 3 4 5 6] show ?case by (simp add: e)
qed

lemma slot31:
  assumes "length b = BUFFER_SIZE"
  shows "slot (Records (init_proxy b) es) 31 = (0, 0, 0)"
proof -
  from Records_invariant [OF assms, of es]
  have "slot (Records (init_proxy b) es) 31 = (0, 0, 0)
     \<or> (\<exists>i<length es. length es \<le> i + 31 \<and> i mod 31 = 31
           \<and> slot (Records (init_proxy b) es) 31 = es ! i)"
    by simp
  moreover have "i mod 31 \<noteq> 31" for i :: nat
    using mod_less_divisor [of 31 i] by simp
  ultimately show ?thesis by blast
qed

lemma zero_id_found:
  assumes b: "length b = BUFFER_SIZE"
    and live: "\<forall>e \<in> set (drop (length es - 31) es). fst e \<noteq> 0"
  shows "Resolve (Records (init_proxy b) es) 0 = Some (0, 0)"
proof -
  let ?s = "Records (init_proxy b) es"
  from slot31 [OF b, of es] have "ids ?s ! 31 = 0" by (simp add: slot_def)
  from Resolve_exists [OF _ this] obtain p a where r: "Resolve ?s 0 = Some (p, a)" by auto
  from Resolve_Some_slot [OF r] obtain j where j: "j < 32" "slot ?s j = (0, p, a)" by blast
  from Records_invariant [OF b, of es] j(1)
  have "slot ?s j = (0, 0, 0)
     \<or> (\<exists>i<length es. length es \<le> i + 31 \<and> i mod 31 = j \<and> slot ?s j = es ! i)"
    by simp
  then show ?thesis
  proof
    assume "slot ?s j = (0, 0, 0)"
    with j r show ?thesis by simp
  next
    assume "\<exists>i<length es. length es \<le> i + 31 \<and> i mod 31 = j \<and> slot ?s j = es ! i"
    then obtain i where i: "i < length es" "length es \<le> i + 31" "slot ?s j = es ! i" by blast
    then have "es ! i = drop (length es - 31) es ! (i - (length es - 31))"
      by simp
    moreover have "i - (length es - 31) < length (drop (length es - 31) es)"
      using i by simp
    ultimately have "es ! i \<in> set (drop (length es - 31) es)"
      using nth_mem by metis
    with live have "fst (es ! i) \<noteq> 0" by blast
    moreover have "es ! i = (0, p, a)" using i(3) j(2) by simp
    ultimately show ?thesis by simp
  qed
qed

lemma Resolve_overwritten:
  assumes b: "length b = BUFFER_SIZE"
    and n: "length es = 32" and d: "distinct (map fst es)" and z: "fst (es ! 0) \<noteq> 0"
  shows "slot (Records (init_proxy b) es) 0 = es ! 31
       \<and> Resolve (Records (init_proxy b) es) (fst (es ! 0)) = None"
proof
  let ?s = "Records (init_proxy b) es"
  obtain k p a where l: "es ! 31 = (k, p, a)" by (cases "es ! 31")
  have "Records (init_proxy b) (take 31 es @ [es ! 31])
          = Record (Records (init_proxy b) (take 31 es)) k p a"
    unfolding l by (rule Records_snoc)
  with split32 [OF n] have s: "?s = Record (Records (init_proxy b) (take 31 es)) k p a"
    by simp
  from Records_invariant [OF b, of "take 31 es"] n
  have "proxy_ok (Records (init_proxy b) (take 31 es))"
    and "portsCounter (Records (init_proxy b) (take 31 es)) = 0"
    by simp_all
  then show "slot ?s 0 = es ! 31"
    unfolding s by (simp add: slot_Record l)
  show "Resolve ?s (fst (es ! 0)) = None"
  proof (rule Resolve_None, intro allI impI)
    fix j :: nat assume j: "j < 32"
    from Records_invariant [OF b, of es] j
    have "slot ?s j = (0, 0, 0)
       \<or> (\<exists>i<length es. length es \<le> i + 31 \<and> i mod 31 = j \<and> slot ?s j = es ! i)"
      by simp
    then show "ids ?s ! j \<noteq> fst (es ! 0)"
    proof
      assume "slot ?s j = (0, 0, 0)"
      with z show ?thesis by (auto simp: slot_def)
    next
      assume "\<exists>i<length es. length es \<le> i + 31 \<and> i mod 31 = j \<and> slot ?s j = es ! i"
      then obtain i where i: "i < length es" "length es \<le> i + 31" "slot ?s j = es ! i" by blast
      with n have i0: "i \<noteq> 0" by simp
      have "map fst es ! i \<noteq> map fst es ! 0"
        using d i(1) n i0 nth_eq_iff_index_eq [of "map fst es" i 0] by simp
      with i n have "fst (es ! i) \<noteq> fst (es ! 0)" by simp
      moreover have "fst (slot ?s j) = ids ?s ! j" by (simp add: slot_def)
      ultimately show ?thesis using i(3) by simp
    qed
  qed
qed





section \<open>The states the loop reaches\<close>

text \<open>The states of the loop are the initial state after calls of \<^verbatim>\<open>Record\<close>, with some
  content of the buffer.\<close>

lemma Record_set_buffer:
  "Record (st \<lparr> resp_buffer := b' \<rparr>) k p a = (Record st k p a) \<lparr> resp_buffer := b' \<rparr>"
  by (simp add: Record_def)

lemma Records_set_buffer:
  "(Records st es) \<lparr> resp_buffer := b' \<rparr> = Records (st \<lparr> resp_buffer := b' \<rparr>) es"
  by (induction es arbitrary: st) (auto simp add: Record_set_buffer)

lemma init_proxy_set_buffer: "(init_proxy b) \<lparr> resp_buffer := b' \<rparr> = init_proxy b'"
  by (simp add: init_proxy_def)

lemma length_reply_buffer:
  "length buffer = BUFFER_SIZE \<Longrightarrow> length (store_HEADER h @ drop 12 buffer) = BUFFER_SIZE"
  by (simp add: length_store_HEADER BUFFER_SIZE_def)

lemma client_question_next_state:
  assumes run: "client_question blacklist serverAddress st r sent = Inr (st', out, c)"
    and len: "length (resp_buffer st) = BUFFER_SIZE"
  shows "\<exists>b'. length b' = BUFFER_SIZE
      \<and> (st' = st \<lparr> resp_buffer := b' \<rparr> \<or> (\<exists>k p a. st' = Record (st \<lparr> resp_buffer := b' \<rparr>) k p a))"
proof (cases r)
  case Failed
  with run have "st' = st \<lparr> resp_buffer := resp_buffer st \<rparr>" by (simp add: client_question_def)
  with len show ?thesis by blast
next
  case (Datagram d clientAddress)
  let ?b = "fst (recvfrom (resp_buffer st) d)"
  have lb: "length ?b = BUFFER_SIZE" using len by (rule recvfrom_length)
  have lr: "length (store_HEADER h @ drop 12 ?b) = BUFFER_SIZE" for h
    using lb by (rule length_reply_buffer)
  show ?thesis
  proof (cases "badPacket (load_HEADER ?b)")
    case True
    from run have "st' = st \<lparr> resp_buffer := store_HEADER (answer_header (load_HEADER ?b) 1) @ drop 12 ?b \<rparr>"
      unfolding Datagram client_question_bad [OF True] by (simp add: reply_error_eq)
    with lr show ?thesis by blast
  next
    case False
    show ?thesis
    proof (cases "getDnsRequestData ?b NAME_SIZE True True")
      case (Inl e)
      from run show ?thesis
        unfolding Datagram client_question_fault [OF False Inl] by simp
    next
      case (Inr x)
      with run False have "(\<exists>code. st' = st \<lparr> resp_buffer := store_HEADER (answer_header (load_HEADER ?b) code) @ drop 12 ?b \<rparr>)
        \<or> (\<exists>k p a. st' = Record (st \<lparr> resp_buffer := ?b \<rparr>) k p a)"
        unfolding Datagram
        by (auto simp add: client_question_def split_def Let_def reply_error_eq split: if_splits)
      with lr lb show ?thesis by blast
    qed
  qed
qed

lemma server_answer_next_state:
  assumes run: "server_answer serverAddress st r = Inr (st', out)"
    and len: "length (resp_buffer st) = BUFFER_SIZE"
  shows "\<exists>b'. length b' = BUFFER_SIZE \<and> st' = st \<lparr> resp_buffer := b' \<rparr>"
proof (cases r)
  case Failed
  with run have "st' = st \<lparr> resp_buffer := resp_buffer st \<rparr>" by (simp add: server_answer_def)
  with len show ?thesis by blast
next
  case (Datagram d tmpAddress)
  let ?b = "fst (recvfrom (resp_buffer st) d)"
  have lb: "length ?b = BUFFER_SIZE" using len by (rule recvfrom_length)
  show ?thesis
  proof (cases "getDnsRequestData ?b NAME_SIZE False False")
    case (Inl e)
    from run show ?thesis
      unfolding Datagram server_answer_fault [OF Inl] by simp
  next
    case (Inr x)
    from run have "st' = st \<lparr> resp_buffer := ?b \<rparr>"
      unfolding Datagram server_answer_decoded [OF Inr] by simp
    with lb show ?thesis by blast
  qed
qed

lemma next_state_Records:
  assumes "st' = st \<lparr> resp_buffer := b' \<rparr> \<or> (\<exists>k p a. st' = Record (st \<lparr> resp_buffer := b' \<rparr>) k p a)"
    and "st = Records (init_proxy b) es"
  shows "\<exists>es'. st' = Records (init_proxy b') (es @ es')"
proof -
  have s: "st \<lparr> resp_buffer := b' \<rparr> = Records (init_proxy b') es"
    using assms(2) by (simp add: Records_set_buffer init_proxy_set_buffer)
  from assms(1) show ?thesis
  proof
    assume "st' = st \<lparr> resp_buffer := b' \<rparr>"
    with s have "st' = Records (init_proxy b') (es @ [])" by simp
    then show ?thesis ..
  next
    assume "\<exists>k p a. st' = Record (st \<lparr> resp_buffer := b' \<rparr>) k p a"
    then obtain k p a where "st' = Record (st \<lparr> resp_buffer := b' \<rparr>) k p a" by blast
    with s have "st' = Records (init_proxy b') (es @ [(k, p, a)])"
      by (simp add: Records_snoc)
    then show ?thesis ..
  qed
qed

text \<open>An iteration that reaches the next \<^verbatim>\<open>poll\<close> leaves a buffer of \<^verbatim>\<open>BUFFER_SIZE\<close>
  octets and the arrays that further calls of \<^verbatim>\<open>Record\<close> give.\<close>

lemma iteration_reachable:
  assumes run: "iteration blacklist serverAddress (Records (init_proxy b) es) ev = Polling st' out"
    and len: "length b = BUFFER_SIZE"
  shows "\<exists>b' es'. length b' = BUFFER_SIZE \<and> st' = Records (init_proxy b') (es @ es')"
proof -
  let ?st = "Records (init_proxy b) es"
  have l0: "length (resp_buffer ?st) = BUFFER_SIZE" using len by (simp add: init_proxy_def)
  from run have p: "poll_ok ev" by (auto simp add: iteration_def split: if_splits)
  let ?c = "case client_in ev of None \<Rightarrow> Inr (?st, [], True)
            | Some r \<Rightarrow> client_question blacklist serverAddress ?st r (send_ok ev)"
  from run p obtain st1 out1 go where c: "?c = Inr (st1, out1, go)"
    by (cases ?c) (auto simp add: iteration_def)
  have "\<exists>b1. length b1 = BUFFER_SIZE
      \<and> (st1 = ?st \<lparr> resp_buffer := b1 \<rparr> \<or> (\<exists>k p a. st1 = Record (?st \<lparr> resp_buffer := b1 \<rparr>) k p a))"
  proof (cases "client_in ev")
    case None
    with c have "st1 = ?st" by simp
    moreover have "?st \<lparr> resp_buffer := b \<rparr> = ?st"
      by (simp add: Records_set_buffer init_proxy_set_buffer)
    ultimately have "st1 = ?st \<lparr> resp_buffer := b \<rparr>" by simp
    with len show ?thesis by blast
  next
    case (Some r)
    with c have "client_question blacklist serverAddress ?st r (send_ok ev) = Inr (st1, out1, go)"
      by simp
    from client_question_next_state [OF this l0] show ?thesis .
  qed
  then obtain b1 where b1: "length b1 = BUFFER_SIZE"
    and s1: "st1 = ?st \<lparr> resp_buffer := b1 \<rparr> \<or> (\<exists>k p a. st1 = Record (?st \<lparr> resp_buffer := b1 \<rparr>) k p a)"
    by blast
  from next_state_Records [OF s1 refl] obtain es1 where e1: "st1 = Records (init_proxy b1) (es @ es1)" ..
  show ?thesis
  proof (cases "go \<and> server_in ev \<noteq> None")
    case False
    with run p c have "st' = st1"
      by (cases go) (auto simp add: iteration_def split: option.splits)
    with b1 e1 show ?thesis by blast
  next
    case True
    then obtain r where r: "server_in ev = Some r" and go: go by auto
    from run p c r go obtain out2 where s: "server_answer serverAddress st1 r = Inr (st', out2)"
      by (cases "server_answer serverAddress st1 r") (auto simp add: iteration_def)
    have "length (resp_buffer st1) = BUFFER_SIZE" using b1 e1 by (simp add: init_proxy_def)
    from server_answer_next_state [OF s this] obtain b2
      where b2: "length b2 = BUFFER_SIZE" and s2: "st' = st1 \<lparr> resp_buffer := b2 \<rparr>" by blast
    from s2 have "st' = st1 \<lparr> resp_buffer := b2 \<rparr> \<or> (\<exists>k p a. st' = Record (st1 \<lparr> resp_buffer := b2 \<rparr>) k p a)"
      by simp
    from next_state_Records [OF this e1] obtain es2
      where "st' = Records (init_proxy b2) ((es @ es1) @ es2)" ..
    then have "st' = Records (init_proxy b2) (es @ (es1 @ es2))" by simp
    with b2 show ?thesis by blast
  qed
qed

section \<open>The claims about the client question\<close>

text \<open>
  Claim C3. A query with a header (at least 12 octets) whose header has the response flag,
  the unused bit or the checking-disabled bit set, no question, or an answer count above
  0, is answered with response code 1. The iteration ends there (\<^verbatim>\<open>continue\<close>) with one
  datagram sent, to the client: it has the length of the received one, its header is the
  received header with \<^verbatim>\<open>qr\<close>, \<^verbatim>\<open>aa\<close>, \<^verbatim>\<open>ra\<close> set, \<^verbatim>\<open>rcode = 1\<close> and
  \<^verbatim>\<open>ancount = nscount = 0\<close> (so the transaction ID is the same, and so are its two
  octets), and everything after the first 12 octets is unchanged. The name is not decoded:
  the result is there for every content of the question section, also one on which
  \<^verbatim>\<open>getDnsRequestData\<close> leaves its buffers.
\<close>

theorem format_error_reply:
  assumes d: "12 \<le> length d" and bad: "badPacket (load_HEADER d)"
  shows "\<exists>st' out p.
      client_question blacklist serverAddress st (Datagram d clientAddress) sent
        = Inr (st', out, False)
    \<and> sends out = [(clientSocketDescritor, p, clientAddress)]
    \<and> load_HEADER p = answer_header (load_HEADER d) 1
    \<and> rcode (load_HEADER p) = 1
    \<and> id_hdr (load_HEADER p) = id_hdr (load_HEADER d)
    \<and> length p = length (take BUFFER_SIZE d)
    \<and> take 2 p = take 2 d
    \<and> drop 12 p = drop 12 (take BUFFER_SIZE d)"
proof -
  let ?b = "fst (recvfrom (resp_buffer st) d)" and ?len = "snd (recvfrom (resp_buffer st) d)"
  let ?h = "load_HEADER d"
  let ?p = "take ?len (store_HEADER (answer_header ?h 1) @ drop 12 ?b)"
  have h: "load_HEADER ?b = ?h" using d by (rule load_HEADER_recvfrom)
  have run: "client_question blacklist serverAddress st (Datagram d clientAddress) sent
     = Inr (st \<lparr> resp_buffer := store_HEADER (answer_header ?h 1) @ drop 12 ?b \<rparr>,
            Stderr ''Wrong query received, sending RCODE=1 (format error).''
              # SendTo clientSocketDescritor ?p clientAddress # send_report sent, False)"
    using bad by (simp add: client_question_def split_def Let_def h reply_error_eq)
  have s: "sends (Stderr ''Wrong query received, sending RCODE=1 (format error).''
              # SendTo clientSocketDescritor ?p clientAddress # send_report sent)
            = [(clientSocketDescritor, ?p, clientAddress)]"
    by simp
  note rb = reply_bytes [OF d, of "resp_buffer st" "answer_header ?h 1"]
  have t: "take 2 ?p = take 2 d"
  proof -
    from d have "2 \<le> ?len" by (simp add: snd_recvfrom BUFFER_SIZE_def)
    then have "take 2 ?p = take 2 (store_HEADER (answer_header ?h 1) @ drop 12 ?b)"
      by (simp add: min_def)
    also have "\<dots> = [d ! 0, d ! 1]"
      by (simp add: store_HEADER_def answer_header_def load_HEADER_def store16_load16)
    also have "\<dots> = take 2 d"
      using d by (cases d; cases "tl d") auto
    finally show ?thesis .
  qed
  show ?thesis
    using run s rb t by (simp add: answer_header_def)
qed

text \<open>The witness: 12 octets with the response flag set arrive while the rest of the
  buffer holds ones, on which the name loop would write past \<^verbatim>\<open>name[512]\<close>.\<close>

theorem format_error_reply_witness:
  "12 \<le> length response_flag_set
   \<and> badPacket (load_HEADER response_flag_set)
   \<and> getDnsRequestData (fst (recvfrom (resp_buffer fresh_ones) response_flag_set))
         NAME_SIZE True True = Inl WritePastName
   \<and> (\<exists>st' out p.
        client_question [] resolver fresh_ones (Datagram response_flag_set client1) True
          = Inr (st', out, False)
      \<and> sends out = [(clientSocketDescritor, p, client1)]
      \<and> load_HEADER p = answer_header (load_HEADER response_flag_set) 1
      \<and> rcode (load_HEADER p) = 1
      \<and> id_hdr (load_HEADER p) = id_hdr (load_HEADER response_flag_set)
      \<and> length p = length (take BUFFER_SIZE response_flag_set)
      \<and> take 2 p = take 2 response_flag_set
      \<and> drop 12 p = drop 12 (take BUFFER_SIZE response_flag_set))"
proof -
  have 1: "12 \<le> length response_flag_set"
    by (simp add: response_flag_set_def header_octets_def)
  have 2: "badPacket (load_HEADER response_flag_set)"
    by code_simp
  let ?b = "fst (recvfrom (resp_buffer fresh_ones) response_flag_set)"
  have b: "?b = response_flag_set @ replicate 988 1"
    by (simp add: recvfrom_def fresh_ones_def init_proxy_def BUFFER_SIZE_def
        response_flag_set_def header_octets_def)
  have "\<forall>i. 12 \<le> i \<and> i < NAME_SIZE + 16 \<longrightarrow> ?b ! i = 1"
    unfolding b using 1
    by (intro allI impI nth_header_ones)
      (simp_all add: response_flag_set_def header_octets_def NAME_SIZE_def)
  moreover have "NAME_SIZE + 16 \<le> length ?b"
    unfolding b by (simp add: NAME_SIZE_def response_flag_set_def header_octets_def)
  moreover have "1 < NAME_SIZE" by (simp add: NAME_SIZE_def)
  ultimately have 3: "getDnsRequestData ?b NAME_SIZE True True = Inl WritePastName"
    by (rule getDnsRequestData_ones)
  from format_error_reply [OF 1 2, of "[]" resolver fresh_ones client1 True] 1 2 3
  show ?thesis by simp
qed

text \<open>
  Claim C4. A query with a header that passes the header check and whose name decodes with
  a type above 0 and a class above 0, one of them not 1, is answered with response code 4
  and nothing else is sent. The blacklist is not looked at: the statement holds for
  every blacklist, also one that matches the name.
\<close>

theorem not_implemented_reply:
  assumes d: "12 \<le> length d"
    and ok: "\<not> badPacket (load_HEADER d)"
    and dec: "getDnsRequestData (fst (recvfrom (resp_buffer st) d)) NAME_SIZE True True
           = Inr (name, Some ty, Some cl)"
    and pos: "0 < ty" "0 < cl"
    and other: "ty \<noteq> 1 \<or> cl \<noteq> 1"
  shows "\<exists>st' out p.
      client_question blacklist serverAddress st (Datagram d clientAddress) sent
        = Inr (st', out, False)
    \<and> sends out = [(clientSocketDescritor, p, clientAddress)]
    \<and> rcode (load_HEADER p) = 4
    \<and> load_HEADER p = answer_header (load_HEADER d) 4
    \<and> length p = length (take BUFFER_SIZE d)
    \<and> drop 12 p = drop 12 (take BUFFER_SIZE d)"
proof -
  have h: "load_HEADER (fst (recvfrom (resp_buffer st) d)) = load_HEADER d"
    using d by (rule load_HEADER_recvfrom)
  from ok h have ok': "\<not> badPacket (load_HEADER (fst (recvfrom (resp_buffer st) d)))" by simp
  note rb = reply_bytes [OF d, of "resp_buffer st" "answer_header (load_HEADER d) 4"]
  show ?thesis
    using pos other rb
    by (simp add: client_question_decoded [OF ok' dec] Let_def reply_error_eq h answer_header_def)
qed

text \<open>The witness: the MX query for ads.example.com while \<open>ads\<close> is blacklisted.\<close>

theorem not_implemented_reply_witness:
  "12 \<le> length query_MX
   \<and> \<not> badPacket (load_HEADER query_MX)
   \<and> getDnsRequestData (fst (recvfrom (resp_buffer fresh) query_MX)) NAME_SIZE True True
        = Inr (octets ''ads.example.com'' @ [0], Some 15, Some 1)
   \<and> isBlacklisted [octets ''ads''] (octets ''ads.example.com'' @ [0])
   \<and> (\<exists>st' out p.
        client_question [octets ''ads''] resolver fresh (Datagram query_MX client1) True
          = Inr (st', out, False)
      \<and> sends out = [(clientSocketDescritor, p, client1)]
      \<and> rcode (load_HEADER p) = 4
      \<and> load_HEADER p = answer_header (load_HEADER query_MX) 4
      \<and> length p = length (take BUFFER_SIZE query_MX)
      \<and> drop 12 p = drop 12 (take BUFFER_SIZE query_MX))"
proof -
  have 1: "12 \<le> length query_MX" by code_simp
  have 2: "\<not> badPacket (load_HEADER query_MX)" by code_simp
  have 3: "getDnsRequestData (fst (recvfrom (resp_buffer fresh) query_MX)) NAME_SIZE True True
        = Inr (octets ''ads.example.com'' @ [0], Some 15, Some 1)"
    by code_simp
  have 4: "isBlacklisted [octets ''ads''] (octets ''ads.example.com'' @ [0])" by code_simp
  from not_implemented_reply [OF 1 2 3, of "[octets ''ads'']" resolver client1 True] 1 2 3 4
  show ?thesis by simp
qed

text \<open>
  Claim C2, as amended. A query with a header that passes the header check and whose
  decoded name, read as a C string, contains a stored blacklist entry as a contiguous
  substring is answered to the client and nothing is sent to the resolver, whatever its
  type and class; the response code is 5 when the type and the class are both 1. (With
  another type or class above 0 the code is 4, see the counterexample; with type or
  class 0 it is 1.)
\<close>

theorem refused_reply:
  assumes d: "12 \<le> length d"
    and ok: "\<not> badPacket (load_HEADER d)"
    and dec: "getDnsRequestData (fst (recvfrom (resp_buffer st) d)) NAME_SIZE True True
           = Inr (name, Some ty, Some cl)"
    and bl: "spec_IsBlacklisted (map c_str blacklist) (c_str name)"
  shows "\<exists>st' out p.
      client_question blacklist serverAddress st (Datagram d clientAddress) sent
        = Inr (st', out, False)
    \<and> sends out = [(clientSocketDescritor, p, clientAddress)]
    \<and> (ty = 1 \<and> cl = 1 \<longrightarrow> rcode (load_HEADER p) = 5)"
proof -
  have h: "load_HEADER (fst (recvfrom (resp_buffer st) d)) = load_HEADER d"
    using d by (rule load_HEADER_recvfrom)
  from ok h have ok': "\<not> badPacket (load_HEADER (fst (recvfrom (resp_buffer st) d)))" by simp
  from bl have b: "isBlacklisted blacklist name" by (simp add: isBlacklisted_spec)
  have rb: "load_HEADER (take (snd (recvfrom (resp_buffer st) d))
      (store_HEADER (answer_header (load_HEADER d) c) @ drop 12 (fst (recvfrom (resp_buffer st) d))))
     = answer_header (load_HEADER d) c" for c
    by (rule reply_bytes [OF d])
  have r5: "rcode (load_HEADER (take (snd (recvfrom (resp_buffer st) d))
      (store_HEADER (answer_header (load_HEADER d) 5) @ drop 12 (fst (recvfrom (resp_buffer st) d)))))
     = 5"
    by (simp only: rb) (simp add: answer_header_def)
  show ?thesis
    using b r5
    by (auto simp add: client_question_decoded [OF ok' dec] Let_def reply_error_eq h)
qed

text \<open>The witness: the A query for ads.example.com while \<open>ads\<close> is blacklisted.\<close>

theorem refused_reply_witness:
  "12 \<le> length query_A
   \<and> \<not> badPacket (load_HEADER query_A)
   \<and> getDnsRequestData (fst (recvfrom (resp_buffer fresh) query_A)) NAME_SIZE True True
        = Inr (octets ''ads.example.com'' @ [0], Some 1, Some 1)
   \<and> spec_IsBlacklisted (map c_str [octets ''ads'']) (c_str (octets ''ads.example.com'' @ [0]))
   \<and> (\<exists>st' out p.
        client_question [octets ''ads''] resolver fresh (Datagram query_A client1) True
          = Inr (st', out, False)
      \<and> sends out = [(clientSocketDescritor, p, client1)]
      \<and> rcode (load_HEADER p) = 5)"
proof -
  have 1: "12 \<le> length query_A" by code_simp
  have 2: "\<not> badPacket (load_HEADER query_A)" by code_simp
  have 3: "getDnsRequestData (fst (recvfrom (resp_buffer fresh) query_A)) NAME_SIZE True True
        = Inr (octets ''ads.example.com'' @ [0], Some 1, Some 1)"
    by code_simp
  have "isBlacklisted [octets ''ads''] (octets ''ads.example.com'' @ [0])" by code_simp
  then have 4: "spec_IsBlacklisted (map c_str [octets ''ads''])
      (c_str (octets ''ads.example.com'' @ [0]))"
    by (simp only: isBlacklisted_spec)
  from refused_reply [OF 1 2 3 4, of resolver client1 True] 1 2 3 4
  show ?thesis by simp
qed

text \<open>The counterexample to the claim as stated: the name of the MX query contains the
  blacklist entry \<open>ads\<close>, and the reply carries code 4.\<close>

theorem refused_reply_counterexample:
  "isBlacklisted [octets ''ads''] (octets ''ads.example.com'' @ [0])
   \<and> getDnsRequestData (fst (recvfrom (resp_buffer fresh) query_MX)) NAME_SIZE True True
        = Inr (octets ''ads.example.com'' @ [0], Some 15, Some 1)
   \<and> (case client_question [octets ''ads''] resolver fresh (Datagram query_MX client1) True of
         Inl e \<Rightarrow> False
       | Inr (st', out, c) \<Rightarrow>
           map (\<lambda>(s, p, a). (s, rcode (load_HEADER p), a)) (sends out)
             = [(clientSocketDescritor, 4, client1)])"
proof -
  have 1: "isBlacklisted [octets ''ads''] (octets ''ads.example.com'' @ [0])" by code_simp
  have 2: "getDnsRequestData (fst (recvfrom (resp_buffer fresh) query_MX)) NAME_SIZE True True
        = Inr (octets ''ads.example.com'' @ [0], Some 15, Some 1)"
    by code_simp
  have 3: "(case client_question [octets ''ads''] resolver fresh (Datagram query_MX client1) True of
         Inl e \<Rightarrow> False
       | Inr (st', out, c) \<Rightarrow>
           map (\<lambda>(s, p, a). (s, rcode (load_HEADER p), a)) (sends out)
             = [(clientSocketDescritor, 4, client1)])"
    by code_simp
  from 1 2 3 show ?thesis by simp
qed

section \<open>The claims about getDnsRequestData\<close>

text \<open>
  Claim C1 fails on the code. The query half holds (\<open>forward_query\<close>), and so does the
  answer half for every answer whose name \<^verbatim>\<open>getDnsRequestData\<close> decodes inside the
  buffers (\<open>return_answer\<close>). The name of an answer is decoded into \<^verbatim>\<open>tmpName[512]\<close>
  with no bound before the correlation arrays are searched: after the query for
  example.com with ID \<^verbatim>\<open>ABCD\<close> has been forwarded and recorded, the answer with that ID
  whose question holds 450 one-octet labels makes the loop write past the array, and no
  defined behaviour is left in which the answer is sent on.
\<close>

theorem answer_overflow:
  "\<exists>st1 out.
     client_question [] resolver fresh (Datagram query_example client1) True = Inr (st1, out, True)
   \<and> sends out = [(serverSocketDescritor, query_example, resolver)]
   \<and> Resolve st1 (ntohs (id_hdr (load_HEADER overflow_answer)))
        = Some (sin_port client1, sin_addr client1)
   \<and> server_answer resolver st1 (Datagram overflow_answer resolver) = Inl WritePastName"
proof -
  have d: "getDnsRequestData (fst (recvfrom (resp_buffer fresh) query_example)) NAME_SIZE True True
        = Inr (octets ''example.com'' @ [0], Some 1, Some 1)"
    by code_simp
  have b: "\<not> badPacket (load_HEADER (fst (recvfrom (resp_buffer fresh) query_example)))"
    by code_simp
  let ?st1 = "Record (fresh \<lparr> resp_buffer := fst (recvfrom (resp_buffer fresh) query_example) \<rparr>)
      (ntohs (id_hdr (load_HEADER (fst (recvfrom (resp_buffer fresh) query_example)))))
      (sin_port client1) (sin_addr client1)"
  have q: "client_question [] resolver fresh (Datagram query_example client1) True
      = Inr (?st1, [SendTo serverSocketDescritor (take BUFFER_SIZE query_example) resolver], True)"
    by (simp add: client_question_decoded [OF b d] Let_def recvfrom_take send_report_def)
  have t: "take BUFFER_SIZE query_example = query_example" by code_simp
  have r: "Resolve ?st1 (ntohs (id_hdr (load_HEADER overflow_answer)))
      = Some (sin_port client1, sin_addr client1)"
    by code_simp
  have "length (header_octets 0xAB 0xCD 0x81 0x80) = 12" by (simp add: header_octets_def)
  then have "getDnsRequestData (fst (recvfrom (resp_buffer ?st1) overflow_answer)) NAME_SIZE
      False False = Inl WritePastName"
    unfolding overflow_answer_def by (rule ones_datagram_overflow) simp
  then have s: "server_answer resolver ?st1 (Datagram overflow_answer resolver) = Inl WritePastName"
    by (rule server_answer_fault)
  from q t r s show ?thesis by simp
qed

text \<open>The two steps of that run, read off the theorem.\<close>

theorem answer_overflow_witness:
  "\<exists>st1 out.
     client_question [] resolver fresh (Datagram query_example client1) True = Inr (st1, out, True)
   \<and> server_answer resolver st1 (Datagram overflow_answer resolver) = Inl WritePastName"
  using answer_overflow by blast

text \<open>
  Claim C5 fails on the code. \<^verbatim>\<open>getDnsRequestData\<close> takes neither the length of the
  datagram nor the size of the destination and returns nothing. In every state and for
  every blacklist, the query whose question holds 450 one-octet labels passes the header
  check and the name loop writes past \<^verbatim>\<open>name[512]\<close>. And a datagram shorter than the
  header is not refused: the two octets \<^verbatim>\<open>12 34\<close> that arrive after the query for
  example.com are read with the ten header octets and the question that the buffer still
  holds, recorded under the ID \<^verbatim>\<open>1234\<close> and sent to the resolver.
\<close>

theorem decode_unbounded:
  "client_question blacklist resolver st (Datagram overflow_query client1) True = Inl WritePastName
   \<and> (case client_question [] resolver fresh (Datagram query_example client1) True of
         Inl e \<Rightarrow> False
       | Inr (st1, out, c) \<Rightarrow>
          (case client_question [] resolver st1 (Datagram [0x12, 0x34] client1) True of
             Inl e \<Rightarrow> False
           | Inr (st2, out2, c2) \<Rightarrow>
               sends out2 = [(serverSocketDescritor, [0x12, 0x34], resolver)]
             \<and> Resolve st2 0x1234 = Some (sin_port client1, sin_addr client1)))"
proof
  have h: "length (header_octets 0xAB 0xCD 1 0) = 12" by (simp add: header_octets_def)
  have "load_HEADER (fst (recvfrom (resp_buffer st) overflow_query)) = load_HEADER overflow_query"
    by (rule load_HEADER_recvfrom) (simp add: overflow_query_def header_octets_def)
  moreover have "\<not> badPacket (load_HEADER overflow_query)" by code_simp
  ultimately have b: "\<not> badPacket (load_HEADER (fst (recvfrom (resp_buffer st) overflow_query)))"
    by simp
  from h have "getDnsRequestData (fst (recvfrom (resp_buffer st) overflow_query)) NAME_SIZE
      True True = Inl WritePastName"
    unfolding overflow_query_def by (rule ones_datagram_overflow) simp
  with b show "client_question blacklist resolver st (Datagram overflow_query client1) True
      = Inl WritePastName"
    by (rule client_question_fault)
  show "(case client_question [] resolver fresh (Datagram query_example client1) True of
         Inl e \<Rightarrow> False
       | Inr (st1, out, c) \<Rightarrow>
          (case client_question [] resolver st1 (Datagram [0x12, 0x34] client1) True of
             Inl e \<Rightarrow> False
           | Inr (st2, out2, c2) \<Rightarrow>
               sends out2 = [(serverSocketDescritor, [0x12, 0x34], resolver)]
             \<and> Resolve st2 0x1234 = Some (sin_port client1, sin_addr client1)))"
    by code_simp
qed

text \<open>The first part in the initial state, with \<open>ads\<close> blacklisted.\<close>

theorem decode_unbounded_witness:
  "client_question [octets ''ads''] resolver fresh (Datagram overflow_query client1) True
     = Inl WritePastName"
  using decode_unbounded [of "[octets ''ads'']" fresh] by blast

text \<open>
  Claim C6, as amended. \<^verbatim>\<open>getDnsRequestData\<close> has no error result. A length octet with
  the high bit set, so every one with the two high bits set, is a negative \<^verbatim>\<open>sum\<close>:
  once the separating dot is written (when the octet is not the first of the name), no
  octet is copied for it and the loop goes on with the octet after it as the next length
  octet.
\<close>

theorem pointer_octet:
  assumes hi: "bit (buffer ! (12 + offset)) 7"
    and len: "12 + (offset + 1) < length buffer"
    and dot: "(if offset \<noteq> 0 then put_url cap url 46 else Inr url) = Inr url1"
  shows "name_loop buffer cap (sint (buffer ! (12 + offset))) offset (offset + 1) url =
     name_loop buffer cap (sint (buffer ! (12 + (offset + 1)))) (offset + 1) (offset + 1 + 1) url1"
proof -
  let ?s = "sint (buffer ! (12 + offset))"
  from hi have neg: "?s < 0" by (rule sint_negative)
  then have c: "copy_label buffer cap (int offset + ?s) (offset + 1) url1 = Inr (offset + 1, url1)"
    by (intro copy_label_none) simp
  from neg have nz: "?s \<noteq> 0" by simp
  from nz dot c len show ?thesis by (rule name_loop_step)
qed

text \<open>The witness: the pointer \<^verbatim>\<open>C0 0C\<close> after the label \<open>ads\<close>, at offset 4.\<close>

theorem pointer_octet_witness:
  "bit (pointer_second ! (12 + 4)) 7 \<and> bit (pointer_second ! (12 + 4)) 6
   \<and> 12 + (4 + 1) < length pointer_second
   \<and> put_url NAME_SIZE (octets ''ads'') 46 = Inr (octets ''ads.'')
   \<and> name_loop pointer_second NAME_SIZE (sint (pointer_second ! (12 + 4))) 4 (4 + 1) (octets ''ads'')
      = name_loop pointer_second NAME_SIZE (sint (pointer_second ! (12 + (4 + 1)))) (4 + 1)
          (4 + 1 + 1) (octets ''ads.'')"
proof -
  have 1: "bit (pointer_second ! (12 + 4)) 7" by code_simp
  have 2: "bit (pointer_second ! (12 + 4)) 6" by code_simp
  have 3: "12 + (4 + 1) < length pointer_second" by code_simp
  have 4: "put_url NAME_SIZE (octets ''ads'') 46 = Inr (octets ''ads.'')" by code_simp
  then have 5: "(if (4::nat) \<noteq> 0 then put_url NAME_SIZE (octets ''ads'') 46 else Inr (octets ''ads''))
      = Inr (octets ''ads.'')"
    by simp
  from pointer_octet [OF 1 3 5] 1 2 3 4 show ?thesis by simp
qed

text \<open>The counterexample to the claim as stated: the name of the query starts with the
  pointer \<^verbatim>\<open>C0 03\<close>, and the result is the name \<open>.com\<close> with type 1 and class 1.\<close>

theorem pointer_octet_counterexample:
  "bit (pointer_first ! 12) 7 \<and> bit (pointer_first ! 12) 6
   \<and> getDnsRequestData (fst (recvfrom (resp_buffer fresh) pointer_first)) NAME_SIZE True True
        = Inr (octets ''.com'' @ [0], Some 1, Some 1)"
proof -
  have 1: "bit (pointer_first ! 12) 7" by code_simp
  have 2: "bit (pointer_first ! 12) 6" by code_simp
  have 3: "getDnsRequestData (fst (recvfrom (resp_buffer fresh) pointer_first)) NAME_SIZE True True
      = Inr (octets ''.com'' @ [0], Some 1, Some 1)" by code_simp
  from 1 2 3 show ?thesis by simp
qed

section \<open>The claims about the correlation table\<close>

text \<open>
  Claim C7, as amended. In a state of the loop (arrays of 32 entries, cursor below 31): if
  no index below the cursor holds the ID \<open>X\<close> when \<open>Record X P A\<close> is called, then after it
  and after at most 30 further calls of \<^verbatim>\<open>Record\<close>, none of them with the ID \<open>X\<close>,
  \<open>Resolve X\<close> returns exactly \<open>(P, A)\<close>.
\<close>

theorem Record_then_Resolve:
  assumes ok: "proxy_ok st"
    and low: "\<forall>i<portsCounter st. ids st ! i \<noteq> X"
    and n: "length es \<le> 30"
    and others: "\<forall>e \<in> set es. fst e \<noteq> X"
  shows "Resolve (Records (Record st X P A) es) X = Some (P, A)"
proof -
  let ?c = "portsCounter st"
  let ?s = "Record st X P A"
  from ok have c: "?c < 31" by (simp add: proxy_ok_def)
  have 1: "proxy_ok ?s" using ok by (rule proxy_ok_Record)
  have 2: "slot ?s ?c = (X, P, A)" using ok c by (simp add: slot_Record)
  have 3: "\<forall>i<?c. ids ?s ! i \<noteq> X"
  proof (intro allI impI)
    fix i assume i: "i < ?c"
    then have "i < 32" using c by simp
    from slot_Record [OF ok this, of X P A] i
    have "ids ?s ! i = ids st ! i" by (simp add: slot_def)
    with low i show "ids ?s ! i \<noteq> X" by simp
  qed
  have 4: "portsCounter ?s = (?c + 1 + 0) mod 31"
    using c by (simp add: portsCounter_Record)
  have 5: "0 + length es \<le> 30" using n by simp
  from Records_keep [OF 1 c 2 3 4 5 others]
  have k: "slot (Records ?s es) ?c = (X, P, A)" "\<forall>i<?c. ids (Records ?s es) ! i \<noteq> X"
    by simp_all
  from c have c32: "?c < 32" by simp
  from k(1) have "ids (Records ?s es) ! ?c = X" by (simp add: slot_def)
  from Resolve_first [OF c32 this k(2)] k(1) show ?thesis
    by (simp add: slot_def)
qed

text \<open>The witness: ID 5 is recorded after ID 7, and the IDs 9 and 7 after it.\<close>

theorem Record_then_Resolve_witness:
  "proxy_ok (Record fresh 7 0x1111 1)
   \<and> list_all (\<lambda>i. ids (Record fresh 7 0x1111 1) ! i \<noteq> 5) [0 ..< portsCounter (Record fresh 7 0x1111 1)]
   \<and> length ids_9_7 \<le> 30
   \<and> list_all (\<lambda>e. fst e \<noteq> 5) ids_9_7
   \<and> Resolve (Records (Record (Record fresh 7 0x1111 1) 5 0x2222 2) ids_9_7) 5 = Some (0x2222, 2)"
proof -
  have 1: "proxy_ok (Record fresh 7 0x1111 1)" by code_simp
  have 2: "list_all (\<lambda>i. ids (Record fresh 7 0x1111 1) ! i \<noteq> 5)
      [0 ..< portsCounter (Record fresh 7 0x1111 1)]"
    by code_simp
  then have h2: "\<forall>i<portsCounter (Record fresh 7 0x1111 1). ids (Record fresh 7 0x1111 1) ! i \<noteq> 5"
    by (simp add: list_all_iff)
  have 3: "length ids_9_7 \<le> 30" by code_simp
  have 4: "list_all (\<lambda>e. fst e \<noteq> 5) ids_9_7" by code_simp
  then have h4: "\<forall>e \<in> set ids_9_7. fst e \<noteq> 5" by (simp add: list_all_iff)
  from Record_then_Resolve [OF 1 h2 3 h4, of "0x2222" 2] 1 2 3 4 show ?thesis by simp
qed

text \<open>The counterexamples to the claim as stated: after \<open>Record 5\<close> and 31 calls with
  the IDs 100 to 130, none of them 5, \<open>Resolve 5\<close> finds nothing; and when ID 5 was
  recorded before for another client, at a lower index, \<open>Resolve 5\<close> returns that client.\<close>

theorem Record_then_Resolve_counterexample:
  "list_all (\<lambda>e. fst e \<noteq> 5) ids_100_130
   \<and> Resolve (Records (Record fresh 5 0x2222 2) ids_100_130) 5 = None
   \<and> Resolve (Record (Record fresh 5 0x1111 1) 5 0x2222 2) 5 = Some (0x1111, 1)"
proof -
  have 1: "list_all (\<lambda>e. fst e \<noteq> 5) ids_100_130" by code_simp
  have 2: "Resolve (Records (Record fresh 5 0x2222 2) ids_100_130) 5 = None" by code_simp
  have 3: "Resolve (Record (Record fresh 5 0x1111 1) 5 0x2222 2) 5 = Some (0x1111, 1)"
    by code_simp
  from 1 2 3 show ?thesis by simp
qed

text \<open>
  Claim C8, as amended. \<^verbatim>\<open>Record\<close> writes the entry at the cursor and moves the cursor
  on, from 30 back to 0, so index 31 keeps its initial zeros after any sequence of calls
  from the initial state (the states of the loop, by \<open>iteration_reachable\<close>). After 32
  calls with pairwise distinct IDs from the initial state, index 0 holds the 32nd entry,
  and \<open>Resolve\<close> with the first entry's ID finds nothing, provided that ID is not 0.
  (ID 0 is found at index 31, see the counterexample.)
\<close>

theorem ring_overwrite:
  assumes b: "length b = BUFFER_SIZE"
  shows "(proxy_ok st \<longrightarrow>
            slot (Record st k p a) (portsCounter st) = (k, p, a)
          \<and> portsCounter (Record st k p a)
               = (if portsCounter st = 30 then 0 else portsCounter st + 1))
       \<and> slot (Records (init_proxy b) es) 31 = (0, 0, 0)
       \<and> (length es = 32 \<and> distinct (map fst es) \<and> fst (es ! 0) \<noteq> 0 \<longrightarrow>
            slot (Records (init_proxy b) es) 0 = es ! 31
          \<and> Resolve (Records (init_proxy b) es) (fst (es ! 0)) = None)"
proof (intro conjI impI)
  assume ok: "proxy_ok st"
  then show "slot (Record st k p a) (portsCounter st) = (k, p, a)"
    by (simp add: slot_Record proxy_ok_def)
  show "portsCounter (Record st k p a) = (if portsCounter st = 30 then 0 else portsCounter st + 1)"
    by (simp add: Record_def)
next
  show "slot (Records (init_proxy b) es) 31 = (0, 0, 0)" using b by (rule slot31)
next
  assume "length es = 32 \<and> distinct (map fst es) \<and> fst (es ! 0) \<noteq> 0"
  then have *: "slot (Records (init_proxy b) es) 0 = es ! 31
       \<and> Resolve (Records (init_proxy b) es) (fst (es ! 0)) = None"
    using Resolve_overwritten [OF b, of es] by simp
  from * show "slot (Records (init_proxy b) es) 0 = es ! 31" by simp
  from * show "Resolve (Records (init_proxy b) es) (fst (es ! 0)) = None" by simp
qed

text \<open>The witness: the IDs 1 to 32 from the initial state.\<close>

theorem ring_overwrite_witness:
  "length (replicate BUFFER_SIZE (0 :: byte)) = BUFFER_SIZE
   \<and> proxy_ok fresh
   \<and> length ids_1_32 = 32 \<and> distinct (map fst ids_1_32) \<and> fst (ids_1_32 ! 0) \<noteq> 0
   \<and> slot (Record fresh 7 0x1111 1) (portsCounter fresh) = (7, 0x1111, 1)
   \<and> portsCounter (Record fresh 7 0x1111 1) = 1
   \<and> slot (Records fresh ids_1_32) 31 = (0, 0, 0)
   \<and> slot (Records fresh ids_1_32) 0 = ids_1_32 ! 31
   \<and> Resolve (Records fresh ids_1_32) (fst (ids_1_32 ! 0)) = None"
proof -
  have 1: "length (replicate BUFFER_SIZE (0 :: byte)) = BUFFER_SIZE" by simp
  have 2: "proxy_ok fresh" by code_simp
  have 3: "length ids_1_32 = 32" by code_simp
  have 4: "distinct (map fst ids_1_32)" by code_simp
  have 5: "fst (ids_1_32 ! 0) \<noteq> 0" by code_simp
  have 6: "portsCounter fresh = 0" by code_simp
  from ring_overwrite [OF 1, of fresh 7 "0x1111" 1 ids_1_32] 2 3 4 5 6
  have "slot (Record fresh 7 0x1111 1) (portsCounter fresh) = (7, 0x1111, 1)"
    "portsCounter (Record fresh 7 0x1111 1) = 1"
    "slot (Records fresh ids_1_32) 31 = (0, 0, 0)"
    "slot (Records fresh ids_1_32) 0 = ids_1_32 ! 31"
    "Resolve (Records fresh ids_1_32) (fst (ids_1_32 ! 0)) = None"
    by (simp_all add: fresh_def)
  with 1 2 3 4 5 show ?thesis by simp
qed

text \<open>The counterexample to the claim as stated: after the 32 entries with the IDs 0
  to 31, \<open>Resolve\<close> with the first entry's ID 0 finds the zeros of index 31.\<close>

theorem ring_overwrite_counterexample:
  "length ids_0_31 = 32 \<and> distinct (map fst ids_0_31)
   \<and> Resolve (Records fresh ids_0_31) (fst (ids_0_31 ! 0)) = Some (0, 0)"
proof -
  have 1: "length ids_0_31 = 32" by code_simp
  have 2: "distinct (map fst ids_0_31)" by code_simp
  have 3: "Resolve (Records fresh ids_0_31) (fst (ids_0_31 ! 0)) = Some (0, 0)" by code_simp
  from 1 2 3 show ?thesis by simp
qed

text \<open>
  In the initial state every index of the three arrays holds 0. In a state reached from
  it by calls of \<^verbatim>\<open>Record\<close> (the states of the loop, by \<open>iteration_reachable\<close>) in
  which none of the last 31 calls (the ones whose entries are not overwritten) stored the
  ID 0, \<open>Resolve 0\<close> finds an entry, with port 0 and address 0; and an answer of the
  resolver whose ID is 0 and whose name decodes inside the buffers is handed to
  \<^verbatim>\<open>sendto\<close> for address 0.0.0.0 port 0.
\<close>

lemma zero_id_answer:
  assumes b: "length b = BUFFER_SIZE"
    and live: "\<forall>e \<in> set (drop (length es - 31) es). fst e \<noteq> 0"
  shows "(\<forall>j<32. slot (init_proxy b) j = (0, 0, 0))
       \<and> Resolve (Records (init_proxy b) es) 0 = Some (0, 0)
       \<and> (ntohs (id_hdr (load_HEADER (fst (recvfrom b d)))) = 0
            \<and> getDnsRequestData (fst (recvfrom b d)) NAME_SIZE False False = Inr r \<longrightarrow>
            (\<exists>st' out.
               server_answer serverAddress (Records (init_proxy b) es) (Datagram d tmpAddress)
                 = Inr (st', out)
             \<and> sends out = [(clientSocketDescritor, take BUFFER_SIZE d,
                              \<lparr> sin_port = 0, sin_addr = 0 \<rparr>)]))"
proof (intro conjI impI allI)
  fix j :: nat assume "j < 32"
  then show "slot (init_proxy b) j = (0, 0, 0)" by (rule slot_init)
next
  show "Resolve (Records (init_proxy b) es) 0 = Some (0, 0)"
    using b live by (rule zero_id_found)
next
  let ?st = "Records (init_proxy b) es"
  assume a: "ntohs (id_hdr (load_HEADER (fst (recvfrom b d)))) = 0
    \<and> getDnsRequestData (fst (recvfrom b d)) NAME_SIZE False False = Inr r"
  from a have dec: "getDnsRequestData (fst (recvfrom (resp_buffer ?st) d)) NAME_SIZE False False
      = Inr r"
    by (simp add: init_proxy_def)
  have "Resolve ?st 0 = Some (0, 0)" using b live by (rule zero_id_found)
  with a have "Resolve ?st (ntohs (id_hdr (load_HEADER (fst (recvfrom (resp_buffer ?st) d)))))
      = Some (0, 0)"
    by (simp add: init_proxy_def)
  with dec show "\<exists>st' out.
      server_answer serverAddress ?st (Datagram d tmpAddress) = Inr (st', out)
    \<and> sends out = [(clientSocketDescritor, take BUFFER_SIZE d, \<lparr> sin_port = 0, sin_addr = 0 \<rparr>)]"
    by (rule return_answer)
qed

text \<open>An example: after the IDs 9 and 7 were recorded, an answer with ID 0 arrives.\<close>

lemma zero_id_answer_example:
  "length (replicate BUFFER_SIZE (0 :: byte)) = BUFFER_SIZE
   \<and> list_all (\<lambda>e. fst e \<noteq> 0) (drop (length ids_9_7 - 31) ids_9_7)
   \<and> ntohs (id_hdr (load_HEADER (fst (recvfrom (replicate BUFFER_SIZE 0) answer_id0)))) = 0
   \<and> getDnsRequestData (fst (recvfrom (replicate BUFFER_SIZE 0) answer_id0)) NAME_SIZE False False
        = Inr (octets ''example.com'' @ [0], None, None)
   \<and> list_all (\<lambda>j. slot fresh j = (0, 0, 0)) [0 ..< 32]
   \<and> Resolve (Records fresh ids_9_7) 0 = Some (0, 0)
   \<and> (\<exists>st' out.
        server_answer resolver (Records fresh ids_9_7) (Datagram answer_id0 resolver) = Inr (st', out)
      \<and> sends out = [(clientSocketDescritor, take BUFFER_SIZE answer_id0,
                       \<lparr> sin_port = 0, sin_addr = 0 \<rparr>)])"
proof -
  have 1: "length (replicate BUFFER_SIZE (0 :: byte)) = BUFFER_SIZE" by simp
  have 2: "list_all (\<lambda>e. fst e \<noteq> 0) (drop (length ids_9_7 - 31) ids_9_7)" by code_simp
  then have h2: "\<forall>e \<in> set (drop (length ids_9_7 - 31) ids_9_7). fst e \<noteq> 0"
    by (simp add: list_all_iff)
  have 3: "ntohs (id_hdr (load_HEADER (fst (recvfrom (replicate BUFFER_SIZE 0) answer_id0)))) = 0"
    by code_simp
  have 4: "getDnsRequestData (fst (recvfrom (replicate BUFFER_SIZE 0) answer_id0)) NAME_SIZE
      False False = Inr (octets ''example.com'' @ [0], None, None)"
    by code_simp
  from zero_id_answer [OF 1 h2, of answer_id0 "(octets ''example.com'' @ [0], None, None)"
      resolver resolver] 3 4
  have 5: "\<forall>j<32. slot fresh j = (0, 0, 0)"
    and 6: "Resolve (Records fresh ids_9_7) 0 = Some (0, 0)"
    and 7: "\<exists>st' out.
        server_answer resolver (Records fresh ids_9_7) (Datagram answer_id0 resolver) = Inr (st', out)
      \<and> sends out = [(clientSocketDescritor, take BUFFER_SIZE answer_id0,
                       \<lparr> sin_port = 0, sin_addr = 0 \<rparr>)]"
    by (simp_all add: fresh_def)
  from 5 have 8: "list_all (\<lambda>j. slot fresh j = (0, 0, 0)) [0 ..< 32]"
    by (simp add: list_all_iff)
  from 1 2 3 4 8 6 7 show ?thesis by simp
qed

text \<open>
  Claim C10 fails on the code. The part about the arrays holds (\<open>zero_id_answer\<close>): the
  initial zeros, and \<open>Resolve 0\<close> finding port 0 and address 0 when none of the last 31
  calls of \<^verbatim>\<open>Record\<close> stored the ID 0. But not every answer with the ID 0 is sent to
  0.0.0.0 port 0: its name is decoded into \<^verbatim>\<open>tmpName[512]\<close> with no bound before the
  arrays are searched. After the IDs 9 and 7 were recorded, the answer with ID 0 whose
  question holds 450 one-octet labels makes the loop write past the array, although
  \<open>Resolve\<close> with its ID finds port 0 and address 0.
\<close>

theorem zero_id_overflow:
  "list_all (\<lambda>e. fst e \<noteq> 0) (drop (length ids_9_7 - 31) ids_9_7)
   \<and> ntohs (id_hdr (load_HEADER overflow_answer_id0)) = 0
   \<and> Resolve (Records fresh ids_9_7) (ntohs (id_hdr (load_HEADER overflow_answer_id0)))
        = Some (0, 0)
   \<and> server_answer resolver (Records fresh ids_9_7) (Datagram overflow_answer_id0 resolver)
        = Inl WritePastName"
proof -
  have 1: "list_all (\<lambda>e. fst e \<noteq> 0) (drop (length ids_9_7 - 31) ids_9_7)" by code_simp
  have 2: "ntohs (id_hdr (load_HEADER overflow_answer_id0)) = 0" by code_simp
  have 3: "Resolve (Records fresh ids_9_7) 0 = Some (0, 0)" by code_simp
  have "length (header_octets 0 0 0x81 0x80) = 12" by (simp add: header_octets_def)
  then have "getDnsRequestData
      (fst (recvfrom (resp_buffer (Records fresh ids_9_7)) overflow_answer_id0)) NAME_SIZE
      False False = Inl WritePastName"
    unfolding overflow_answer_id0_def by (rule ones_datagram_overflow) simp
  then have 4: "server_answer resolver (Records fresh ids_9_7)
      (Datagram overflow_answer_id0 resolver) = Inl WritePastName"
    by (rule server_answer_fault)
  from 1 2 3 4 show ?thesis by simp
qed

text \<open>The last step of that run, read off the theorem.\<close>

theorem zero_id_overflow_witness:
  "server_answer resolver (Records fresh ids_9_7) (Datagram overflow_answer_id0 resolver)
     = Inl WritePastName"
  using zero_id_overflow by blast

section \<open>The claim about the loop\<close>

text \<open>
  Claim C9, as amended. When \<^verbatim>\<open>poll\<close> fails, the iteration reports it and ends the
  process: \<^verbatim>\<open>clear\<close> calls \<^verbatim>\<open>exit\<close>. Nothing else does. When \<^verbatim>\<open>poll\<close> succeeded
  and the name decodes that the iteration runs on the datagrams it received stay inside
  their buffers (the decode of the client question when its header passed the check, the
  decode of the server answer when the server part is reached), the iteration reaches the
  next \<^verbatim>\<open>poll\<close>, whatever the datagrams hold. A failed \<^verbatim>\<open>recvfrom\<close> on either socket
  is reported and the state is unchanged at the next \<^verbatim>\<open>poll\<close>; a failed \<^verbatim>\<open>sendto\<close>
  changes neither the next state nor whether it is reached. (Nothing is said about a
  datagram on which a decode leaves its buffers.)
\<close>

theorem loop_goes_on:
  "(\<not> poll_ok ev \<longrightarrow>
      iteration blacklist serverAddress st ev = Exited [Stderr ''Unable to poll descriptors.''])
   \<and> (poll_ok ev \<and> question_fault st ev = None \<and> answer_fault blacklist st ev = None \<longrightarrow>
        (\<exists>st' out. iteration blacklist serverAddress st ev = Polling st' out))
   \<and> (poll_ok ev \<and> client_in ev = Some Failed \<longrightarrow>
        iteration blacklist serverAddress st ev = Polling st [Stderr ''Not able to receive packet.''])
   \<and> (poll_ok ev \<and> client_in ev = None \<and> server_in ev = Some Failed \<longrightarrow>
        iteration blacklist serverAddress st ev = Polling st [Stderr ''Not able to receive packet.''])
   \<and> (\<forall>st' out. iteration blacklist serverAddress st (ev \<lparr> send_ok := True \<rparr>) = Polling st' out \<longrightarrow>
        (\<exists>out'. iteration blacklist serverAddress st (ev \<lparr> send_ok := False \<rparr>) = Polling st' out'))"
proof (intro conjI impI allI)
  assume "\<not> poll_ok ev"
  then show "iteration blacklist serverAddress st ev = Exited [Stderr ''Unable to poll descriptors.'']"
    by (rule iteration_poll_failed)
next
  assume a: "poll_ok ev \<and> question_fault st ev = None \<and> answer_fault blacklist st ev = None"
  then have "poll_ok ev" by simp
  from iteration_outcome [OF this, where st = st and blacklist = blacklist and serverAddress = serverAddress] a
  show "\<exists>st' out. iteration blacklist serverAddress st ev = Polling st' out"
    by simp
next
  assume "poll_ok ev \<and> client_in ev = Some Failed"
  then show "iteration blacklist serverAddress st ev
      = Polling st [Stderr ''Not able to receive packet.'']"
    by (simp add: iteration_def client_question_def)
next
  assume "poll_ok ev \<and> client_in ev = None \<and> server_in ev = Some Failed"
  then show "iteration blacklist serverAddress st ev
      = Polling st [Stderr ''Not able to receive packet.'']"
    by (simp add: iteration_def server_answer_def)
next
  fix st' out
  assume "iteration blacklist serverAddress st (ev \<lparr> send_ok := True \<rparr>) = Polling st' out"
  then show "\<exists>out'. iteration blacklist serverAddress st (ev \<lparr> send_ok := False \<rparr>) = Polling st' out'"
    by (rule iteration_send_failed)
qed

text \<open>The witness: a failed \<^verbatim>\<open>poll\<close>; a failed \<^verbatim>\<open>recvfrom\<close> on each socket; 12 octets
  with the response flag set whose reply cannot be sent; and the query for example.com
  with an answer for it in the same iteration.\<close>

theorem loop_goes_on_witness:
  "iteration [] resolver fresh poll_failed = Exited [Stderr ''Unable to poll descriptors.'']
   \<and> iteration [] resolver fresh client_recv_failed
        = Polling fresh [Stderr ''Not able to receive packet.'']
   \<and> iteration [] resolver fresh server_recv_failed
        = Polling fresh [Stderr ''Not able to receive packet.'']
   \<and> question_fault fresh (malformed_and_send_failed \<lparr> send_ok := True \<rparr>) = None
   \<and> answer_fault [] fresh (malformed_and_send_failed \<lparr> send_ok := True \<rparr>) = None
   \<and> (\<exists>st' out out'.
         iteration [] resolver fresh (malformed_and_send_failed \<lparr> send_ok := True \<rparr>) = Polling st' out
       \<and> iteration [] resolver fresh (malformed_and_send_failed \<lparr> send_ok := False \<rparr>) = Polling st' out')
   \<and> poll_ok query_and_answer
   \<and> forwarded [] (fst (recvfrom (resp_buffer fresh) query_example))
   \<and> question_fault fresh query_and_answer = None
   \<and> answer_fault [] fresh query_and_answer = None
   \<and> (\<exists>st' out. iteration [] resolver fresh query_and_answer = Polling st' out)"
proof -
  have 1: "\<not> poll_ok poll_failed" by (simp add: poll_failed_def)
  have 2: "poll_ok client_recv_failed \<and> client_in client_recv_failed = Some Failed"
    by (simp add: client_recv_failed_def)
  have 3: "poll_ok server_recv_failed \<and> client_in server_recv_failed = None
      \<and> server_in server_recv_failed = Some Failed"
    by (simp add: server_recv_failed_def)
  have p: "poll_ok (malformed_and_send_failed \<lparr> send_ok := True \<rparr>)"
    by (simp add: malformed_and_send_failed_def)
  have q: "question_fault fresh (malformed_and_send_failed \<lparr> send_ok := True \<rparr>) = None"
    by code_simp
  have r: "answer_fault [] fresh (malformed_and_send_failed \<lparr> send_ok := True \<rparr>) = None"
    by code_simp
  have p2: "poll_ok query_and_answer" by (simp add: query_and_answer_def)
  have f2: "forwarded [] (fst (recvfrom (resp_buffer fresh) query_example))" by code_simp
  have q2: "question_fault fresh query_and_answer = None" by code_simp
  have r2: "answer_fault [] fresh query_and_answer = None" by code_simp
  from loop_goes_on [of poll_failed "[]" resolver fresh] 1
  have a: "iteration [] resolver fresh poll_failed = Exited [Stderr ''Unable to poll descriptors.'']"
    by blast
  from loop_goes_on [of client_recv_failed "[]" resolver fresh] 2
  have b: "iteration [] resolver fresh client_recv_failed
      = Polling fresh [Stderr ''Not able to receive packet.'']"
    by blast
  from loop_goes_on [of server_recv_failed "[]" resolver fresh] 3
  have c: "iteration [] resolver fresh server_recv_failed
      = Polling fresh [Stderr ''Not able to receive packet.'']"
    by blast
  from loop_goes_on [of "malformed_and_send_failed \<lparr> send_ok := True \<rparr>" "[]" resolver fresh] p q r
  obtain st' out
    where 4: "iteration [] resolver fresh (malformed_and_send_failed \<lparr> send_ok := True \<rparr>)
      = Polling st' out"
    by blast
  from loop_goes_on [of malformed_and_send_failed "[]" resolver fresh] 4
  obtain out' where
    d: "iteration [] resolver fresh (malformed_and_send_failed \<lparr> send_ok := False \<rparr>) = Polling st' out'"
    by blast
  from 4 d have e: "\<exists>st' out out'.
         iteration [] resolver fresh (malformed_and_send_failed \<lparr> send_ok := True \<rparr>) = Polling st' out
       \<and> iteration [] resolver fresh (malformed_and_send_failed \<lparr> send_ok := False \<rparr>) = Polling st' out'"
    by blast
  from loop_goes_on [of query_and_answer "[]" resolver fresh] p2 q2 r2
  have g: "\<exists>st' out. iteration [] resolver fresh query_and_answer = Polling st' out"
    by blast
  from a b c q r e p2 f2 q2 r2 g show ?thesis by blast
qed

text \<open>The counterexample to the claim as stated: \<^verbatim>\<open>poll\<close> fails and the process ends.\<close>

theorem loop_goes_on_counterexample:
  "iteration [] resolver fresh poll_failed = Exited [Stderr ''Unable to poll descriptors.'']"
  by (simp add: iteration_def poll_failed_def)

end
